theory Spec2Isabelle
  imports Main
begin

section \<open>A text comparison tool\<close>

text \<open>
  The tool reads two delimited text files, lets the user choose a key column common to both,
  and classifies the records of the two files, matched by key, as added, removed, changed or
  unchanged. This theory embeds the three functions that do the work, as the corrected
  version of the script has them: \<open>getDelimiter\<close> chooses the delimiter of a file,
  \<open>parseFile\<close> turns the text of a file into a header list and rows, and
  \<open>performComparison\<close> compares two parsed files by key. The properties that the
  specification states about them follow the definitions.

  What the embedding fixes:
  \<^item> A JavaScript string is a \<^typ>\<open>string\<close>, one \<^typ>\<open>char\<close> per code unit, for the
    code units below 256.
  \<^item> An object used as a record (a row, a differences map) and a \<open>Map\<close> are lists of
    (key, value) pairs in insertion order, the own properties of the object. A row is an
    object literal, so it inherits the members of \<open>Object.prototype\<close>: reading a column
    (\<open>getProp\<close>) gives the own value, or the inherited member, or \<open>undefined\<close>, and
    writing the column \<open>__proto__\<close> (\<open>setProp\<close>) leaves the row as it is. The enumeration
    order of integer-like names is not modelled.
  \<^item> An error thrown by \<open>parseFile\<close> or by \<open>performComparison\<close> is a value \<open>Inl e\<close> of
    the result.
  \<^item> The value of the delimiter selector of the page and the two loaded files, which the
    script reads from the page and from a global variable, are arguments. Console output
    is not modelled.
\<close>

section \<open>Strings\<close>

abbreviation TAB :: char where "TAB \<equiv> CHR 0x09"
abbreviation LF :: char where "LF \<equiv> CHR 0x0A"
abbreviation CR :: char where "CR \<equiv> CHR 0x0D"

text \<open>The characters \<open>String.prototype.trim\<close> strips: white space and line terminators.\<close>

definition isSpace :: "char \<Rightarrow> bool" where
  "isSpace c = (c \<in> set [TAB, LF, CHR 0x0B, CHR 0x0C, CR, CHR 0x20, CHR 0xA0])"

definition trim :: "string \<Rightarrow> string" where
  "trim s = rev (dropWhile isSpace (rev (dropWhile isSpace s)))"

text \<open>\<open>String.prototype.toLowerCase\<close>, per code unit: A to Z, and the upper-case letters
  of the range 0xC0 to 0xDE (0xD7 is the multiplication sign).\<close>

definition toLowerChar :: "char \<Rightarrow> char" where
  "toLowerChar c =
     (let n = (of_char c :: nat)
      in if (65 \<le> n \<and> n \<le> 90) \<or> (192 \<le> n \<and> n \<le> 222 \<and> n \<noteq> 215)
         then char_of (n + 32) else c)"

definition toLowerCase :: "string \<Rightarrow> string" where
  "toLowerCase s = map toLowerChar s"

definition endsWith :: "string \<Rightarrow> string \<Rightarrow> bool" where
  "endsWith s suf = (length suf \<le> length s \<and> drop (length s - length suf) s = suf)"

text \<open>Prepending a character to the first piece of a split.\<close>

fun consHead :: "char \<Rightarrow> string list \<Rightarrow> string list" where
  "consHead c [] = [[c]]"
| "consHead c (l # ls) = (c # l) # ls"

text \<open>\<open>s.split(d)\<close> for a separator \<open>d\<close> of one character: the empty string splits into
  one empty piece.\<close>

fun split_char :: "char \<Rightarrow> string \<Rightarrow> string list" where
  "split_char d [] = [[]]"
| "split_char d (c # cs) =
     (if c = d then [] # split_char d cs else consHead c (split_char d cs))"

text \<open>\<open>s.split(/\r?\n/)\<close>: scanning from the left, a line feed, or a carriage return
  directly followed by a line feed, ends the current piece.\<close>

fun split_lines :: "string \<Rightarrow> string list" where
  "split_lines [] = [[]]"
| "split_lines [c] = (if c = LF then [[], []] else [[c]])"
| "split_lines (c # d # cs) =
     (if c = LF then [] # split_lines (d # cs)
      else if c = CR \<and> d = LF then [] # split_lines cs
      else consHead c (split_lines (d # cs)))"

text \<open>\<open>(s.match(/c/g) || []).length\<close>: the number of occurrences of a character.\<close>

definition countChar :: "char \<Rightarrow> string \<Rightarrow> nat" where
  "countChar c s = length (filter (\<lambda>x. x = c) s)"

text \<open>\<open>xs[0]\<close> of an array of strings; \<open>split\<close> never returns an empty array.\<close>

fun firstOf :: "string list \<Rightarrow> string" where
  "firstOf [] = []"
| "firstOf (l # ls) = l"

section \<open>Insertion-ordered maps\<close>

text \<open>
  Assignment \<open>obj[k] = v\<close> to an object and \<open>Map.prototype.set\<close>: a new key is appended, an
  existing key keeps its position and takes the new value. Reading is \<^const>\<open>map_of\<close>.
\<close>

fun upsert :: "('k \<times> 'v) list \<Rightarrow> 'k \<Rightarrow> 'v \<Rightarrow> ('k \<times> 'v) list" where
  "upsert [] k v = [(k, v)]"
| "upsert ((k', v') # m) k v =
     (if k' = k then (k', v) # m else (k', v') # upsert m k v)"

text \<open>\<open>new Set(xs)\<close>: the elements of \<open>xs\<close> in the order of their first occurrence.\<close>

fun newSet :: "'a list \<Rightarrow> 'a list \<Rightarrow> 'a list" where
  "newSet acc [] = acc"
| "newSet acc (x # xs) = newSet (if x \<in> set acc then acc else acc @ [x]) xs"

section \<open>Delimiter resolution: getDelimiter\<close>

definition delimiterMap :: "string \<rightharpoonup> char" where
  "delimiterMap =
     [''tab'' \<mapsto> TAB, ''comma'' \<mapsto> CHR '','', ''semicolon'' \<mapsto> CHR '';'', ''pipe'' \<mapsto> CHR ''|'']"

definition priority :: "char list" where
  "priority = [TAB, CHR '','', CHR '';'', CHR ''|'']"

text \<open>
  The first argument is the value of the delimiter selector of the page, \<open>None\<close> when the
  page has no such element (the code then takes \<open>auto\<close>).
\<close>

definition getDelimiter :: "string option \<Rightarrow> string \<Rightarrow> string \<Rightarrow> char" where
  "getDelimiter delimiterSelect content filename =
     (let selectedDelimiter = (case delimiterSelect of Some v \<Rightarrow> v | None \<Rightarrow> ''auto'')
      in if selectedDelimiter \<noteq> ''auto''
         then (case delimiterMap selectedDelimiter of Some d \<Rightarrow> d | None \<Rightarrow> TAB)
         else
           let firstLine = firstOf (split_lines content);
               lowerFilename = toLowerCase filename
           in if endsWith lowerFilename ''.csv'' then CHR '',''
              else if endsWith lowerFilename ''.tsv'' then TAB
              else
                let counts = (\<lambda>d. countChar d firstLine);
                    maxCount = Max (set (map counts priority))
                in if maxCount = 0 then TAB
                   else (case find (\<lambda>d. counts d = maxCount) priority of
                           Some d \<Rightarrow> d | None \<Rightarrow> TAB))"

text \<open>The display names are Japanese words; the model keeps one constructor for each, and
  the character itself for any other delimiter.\<close>

datatype delimiterName = NameTab | NameComma | NameSemicolon | NamePipe | NameOther char

definition getDelimiterName :: "char \<Rightarrow> delimiterName" where
  "getDelimiterName d =
     (if d = TAB then NameTab else if d = CHR '','' then NameComma
      else if d = CHR '';'' then NameSemicolon else if d = CHR ''|'' then NamePipe
      else NameOther d)"

section \<open>Row parsing: parseFile\<close>

type_synonym row = "(string \<times> string) list"

record ParsedDataset =
  headers :: "string list"
  rows :: "row list"
  delimiter :: delimiterName

text \<open>The four errors that \<open>parseFile\<close> throws, and the \<open>TypeError\<close> of a call of
  \<open>trim\<close> on a value that has no such method.\<close>

datatype error = EmptyFile | HeaderAndDataRequired | EmptyHeader | NoDataRows | TypeError

text \<open>
  The properties that a row inherits from \<open>Object.prototype\<close>. Each is a function, but for
  \<open>__proto__\<close>, an accessor that returns \<open>Object.prototype\<close> itself: none is a string, all
  are truthy, and none has a method \<open>trim\<close>.
\<close>

definition prototypeNames :: "string list" where
  "prototypeNames =
     [''constructor'', ''__defineGetter__'', ''__defineSetter__'', ''hasOwnProperty'',
      ''__lookupGetter__'', ''__lookupSetter__'', ''isPrototypeOf'', ''propertyIsEnumerable'',
      ''toString'', ''valueOf'', ''__proto__'', ''toLocaleString'']"

text \<open>What \<open>row[column]\<close> evaluates to: the own value, else the inherited member, else
  \<open>undefined\<close>.\<close>

datatype jsValue = Str string | Inherited | Undefined

definition getProp :: "row \<Rightarrow> string \<Rightarrow> jsValue" where
  "getProp row column =
     (case map_of row column of
        Some v \<Rightarrow> Str v
      | None \<Rightarrow> if column \<in> set prototypeNames then Inherited else Undefined)"

text \<open>
  \<open>object[column] = v\<close>, for a row or a differences map: the setter of \<open>__proto__\<close> ignores
  a string and takes an object as the prototype, so that no own property arises in either
  case; any other name becomes, or stays, an own property.
\<close>

definition setProp :: "(string \<times> 'a) list \<Rightarrow> string \<Rightarrow> 'a \<Rightarrow> (string \<times> 'a) list" where
  "setProp row column v = (if column = ''__proto__'' then row else upsert row column v)"

text \<open>\<open>values[index] || ''\<close>: a field past the end of the line reads as the empty string.\<close>

definition fieldAt :: "string list \<Rightarrow> nat \<Rightarrow> string" where
  "fieldAt values i = (if i < length values then values ! i else [])"

text \<open>\<open>headers.forEach((header, index) => row[header] = (values[index] || '').trim())\<close>\<close>

definition buildRow :: "string list \<Rightarrow> string list \<Rightarrow> row" where
  "buildRow hs values =
     foldl (\<lambda>row (index, header). setProp row header (trim (fieldAt values index)))
       [] (enumerate 0 hs)"

text \<open>\<open>Object.values(row).some(val => val !== '')\<close>\<close>

definition someNonEmpty :: "row \<Rightarrow> bool" where
  "someNonEmpty row = (\<exists>val \<in> set (map snd row). val \<noteq> [])"

text \<open>The loop over the lines after the header line.\<close>

fun parseLines :: "char \<Rightarrow> string list \<Rightarrow> string list \<Rightarrow> row list" where
  "parseLines d hs [] = []"
| "parseLines d hs (l # ls) =
     (let line = trim l
      in if line = [] then parseLines d hs ls
         else
           let row = buildRow hs (split_char d line)
           in if someNonEmpty row then row # parseLines d hs ls
              else parseLines d hs ls)"

definition parseFile :: "string option \<Rightarrow> string \<Rightarrow> string \<Rightarrow> error + ParsedDataset" where
  "parseFile delimiterSelect content filename =
     (if content = [] \<or> trim content = [] then Inl EmptyFile
      else
        let lines = split_lines (trim content)
        in if length lines < 2 then Inl HeaderAndDataRequired
           else
             let d = getDelimiter delimiterSelect content filename;
                 delimiterName = getDelimiterName d;
                 hs = map trim (split_char d (firstOf lines))
             in if (\<exists>header \<in> set hs. header = []) then Inl EmptyHeader
                else
                  let rs = parseLines d hs (tl lines)
                  in if length rs = 0 then Inl NoDataRows
                     else Inr \<lparr>headers = hs, rows = rs, delimiter = delimiterName\<rparr>)"

section \<open>Keyed comparison: performComparison\<close>

type_synonym index = "(string \<times> row) list"

type_synonym differences = "(string \<times> (string \<times> string)) list"

datatype DiffEntry =
    Added string row
  | Removed string row
  | Changed string row row differences
  | Unchanged string row

fun entryKey :: "DiffEntry \<Rightarrow> string" where
  "entryKey (Added k r) = k"
| "entryKey (Removed k r) = k"
| "entryKey (Changed k r1 r2 ds) = k"
| "entryKey (Unchanged k r) = k"

record Stats =
  total1 :: nat
  total2 :: nat
  addedCount :: nat
  removedCount :: nat
  changedCount :: nat
  unchangedCount :: nat

record ComparisonResult =
  added :: "DiffEntry list"
  removed :: "DiffEntry list"
  changed :: "DiffEntry list"
  unchanged :: "DiffEntry list"
  stats :: Stats

text \<open>
  The loop that fills a key index. In \<open>key && key.trim() !== ''\<close> an undefined or empty
  key is falsy, and an inherited member is truthy and has no \<open>trim\<close>. The console warning
  on a repeated key is not modelled.
\<close>

fun buildIndex :: "string \<Rightarrow> row list \<Rightarrow> index \<Rightarrow> error + index" where
  "buildIndex keyColumn [] m = Inr m"
| "buildIndex keyColumn (row # rest) m =
     (case getProp row keyColumn of
        Undefined \<Rightarrow> buildIndex keyColumn rest m
      | Inherited \<Rightarrow> Inl TypeError
      | Str key \<Rightarrow>
          if key \<noteq> [] \<and> trim key \<noteq> [] then buildIndex keyColumn rest (upsert m key row)
          else buildIndex keyColumn rest m)"

text \<open>\<open>(row[column] || '').trim()\<close>\<close>

definition trimmedValue :: "row \<Rightarrow> string \<Rightarrow> error + string" where
  "trimmedValue row column =
     (case getProp row column of
        Str v \<Rightarrow> Inr (trim v)
      | Undefined \<Rightarrow> Inr (trim [])
      | Inherited \<Rightarrow> Inl TypeError)"

text \<open>The loop over the union of the columns of two rows: the state is the pair of
  \<open>differences\<close> and \<open>hasChanges\<close>, or the error thrown.\<close>

definition compareColumn ::
  "row \<Rightarrow> row \<Rightarrow> error + differences \<times> bool \<Rightarrow> string \<Rightarrow> error + differences \<times> bool" where
  "compareColumn row1 row2 acc column =
     (case acc of
        Inl e \<Rightarrow> Inl e
      | Inr st \<Rightarrow>
          (case trimmedValue row1 column of
             Inl e \<Rightarrow> Inl e
           | Inr value1 \<Rightarrow>
               (case trimmedValue row2 column of
                  Inl e \<Rightarrow> Inl e
                | Inr value2 \<Rightarrow>
                    Inr (if value1 \<noteq> value2
                         then (setProp (fst st) column (value1, value2), True) else st))))"

definition compareRows :: "row \<Rightarrow> row \<Rightarrow> error + differences \<times> bool" where
  "compareRows row1 row2 =
     (let allColumns = newSet [] (map fst row1 @ map fst row2)
      in foldl (compareColumn row1 row2) (Inr ([], False)) allColumns)"

text \<open>The three passes; each list is filled by \<open>push\<close> in iteration order.\<close>

fun addedPass :: "index \<Rightarrow> index \<Rightarrow> DiffEntry list" where
  "addedPass m1 [] = []"
| "addedPass m1 ((key, row) # rest) =
     (if map_of m1 key = None then Added key row # addedPass m1 rest
      else addedPass m1 rest)"

fun removedPass :: "index \<Rightarrow> index \<Rightarrow> DiffEntry list" where
  "removedPass [] m2 = []"
| "removedPass ((key, row) # rest) m2 =
     (if map_of m2 key = None then Removed key row # removedPass rest m2
      else removedPass rest m2)"

fun changedPass :: "index \<Rightarrow> index \<Rightarrow> error + DiffEntry list \<times> DiffEntry list" where
  "changedPass [] m2 = Inr ([], [])"
| "changedPass ((key, row1) # rest) m2 =
     (case map_of m2 key of
        None \<Rightarrow> changedPass rest m2
      | Some row2 \<Rightarrow>
          (case compareRows row1 row2 of
             Inl e \<Rightarrow> Inl e
           | Inr (ds, hasChanges) \<Rightarrow>
               (case changedPass rest m2 of
                  Inl e \<Rightarrow> Inl e
                | Inr (ch, un) \<Rightarrow>
                    if hasChanges then Inr (Changed key row1 row2 ds # ch, un)
                    else Inr (ch, Unchanged key row1 # un))))"

definition performComparison ::
  "ParsedDataset \<Rightarrow> ParsedDataset \<Rightarrow> string \<Rightarrow> error + ComparisonResult" where
  "performComparison file1 file2 keyColumn =
     (case buildIndex keyColumn (rows file1) [] of
        Inl e \<Rightarrow> Inl e
      | Inr m1 \<Rightarrow>
          (case buildIndex keyColumn (rows file2) [] of
             Inl e \<Rightarrow> Inl e
           | Inr m2 \<Rightarrow>
               (let addedL = addedPass m1 m2;
                    removedL = removedPass m1 m2
                in case changedPass m1 m2 of
                     Inl e \<Rightarrow> Inl e
                   | Inr (changedL, unchangedL) \<Rightarrow>
                       Inr \<lparr>added = addedL, removed = removedL, changed = changedL,
                            unchanged = unchangedL,
                            stats = \<lparr>total1 = length (rows file1), total2 = length (rows file2),
                                      addedCount = length addedL, removedCount = length removedL,
                                      changedCount = length changedL,
                                      unchangedCount = length unchangedL\<rparr>\<rparr>)))"

section \<open>Notions used to state the properties\<close>

text \<open>
  When no read of a column meets an inherited member, the comparison is a computation on
  the own values of the rows alone. The functions that follow are that computation: the
  value of a column with the empty string for a column the row lacks, the key index, the
  differences of two rows, the pass over the keys of both indices and the result. They are
  proved below to be what the functions of the script return whenever these return, and
  serve the proofs.
\<close>

definition usableKey :: "string option \<Rightarrow> bool" where
  "usableKey key = (case key of None \<Rightarrow> False | Some k \<Rightarrow> k \<noteq> [] \<and> trim k \<noteq> [])"

definition valueOr :: "row \<Rightarrow> string \<Rightarrow> string" where
  "valueOr row column = (case map_of row column of None \<Rightarrow> [] | Some v \<Rightarrow> v)"

fun indexOf :: "string \<Rightarrow> row list \<Rightarrow> index \<Rightarrow> index" where
  "indexOf keyColumn [] m = m"
| "indexOf keyColumn (row # rest) m =
     (case map_of row keyColumn of
        None \<Rightarrow> indexOf keyColumn rest m
      | Some key \<Rightarrow>
          if usableKey (Some key) then indexOf keyColumn rest (upsert m key row)
          else indexOf keyColumn rest m)"

definition diffColumn :: "row \<Rightarrow> row \<Rightarrow> differences \<times> bool \<Rightarrow> string \<Rightarrow> differences \<times> bool" where
  "diffColumn row1 row2 st column =
     (let value1 = trim (valueOr row1 column);
          value2 = trim (valueOr row2 column)
      in if value1 \<noteq> value2 then (setProp (fst st) column (value1, value2), True) else st)"

definition rowDiff :: "row \<Rightarrow> row \<Rightarrow> differences \<times> bool" where
  "rowDiff row1 row2 =
     (let allColumns = newSet [] (map fst row1 @ map fst row2)
      in foldl (diffColumn row1 row2) ([], False) allColumns)"

fun bothPass :: "index \<Rightarrow> index \<Rightarrow> DiffEntry list \<times> DiffEntry list" where
  "bothPass [] m2 = ([], [])"
| "bothPass ((key, row1) # rest) m2 =
     (let (ch, un) = bothPass rest m2
      in case map_of m2 key of
           None \<Rightarrow> (ch, un)
         | Some row2 \<Rightarrow>
             let (ds, hasChanges) = rowDiff row1 row2
             in if hasChanges then (Changed key row1 row2 ds # ch, un)
                else (ch, Unchanged key row1 # un))"

definition comparisonOf :: "ParsedDataset \<Rightarrow> ParsedDataset \<Rightarrow> string \<Rightarrow> ComparisonResult" where
  "comparisonOf file1 file2 keyColumn =
     (let m1 = indexOf keyColumn (rows file1) [];
          m2 = indexOf keyColumn (rows file2) [];
          addedL = addedPass m1 m2;
          removedL = removedPass m1 m2;
          (changedL, unchangedL) = bothPass m1 m2
      in \<lparr>added = addedL, removed = removedL, changed = changedL, unchanged = unchangedL,
          stats = \<lparr>total1 = length (rows file1), total2 = length (rows file2),
                    addedCount = length addedL, removedCount = length removedL,
                    changedCount = length changedL, unchangedCount = length unchangedL\<rparr>\<rparr>)"


text \<open>The keys of the rows that enter an index, in row order.\<close>

definition rowKeys :: "string \<Rightarrow> row list \<Rightarrow> string list" where
  "rowKeys kc rs =
     map (\<lambda>row. the (map_of row kc)) (filter (\<lambda>row. usableKey (map_of row kc)) rs)"

text \<open>A column differs between two rows when the trimmed values differ, an absent
  value counting as the empty string.\<close>

definition differs :: "row \<Rightarrow> row \<Rightarrow> string \<Rightarrow> bool" where
  "differs row1 row2 column = (trim (valueOr row1 column) \<noteq> trim (valueOr row2 column))"

definition allColumns :: "row \<Rightarrow> row \<Rightarrow> string list" where
  "allColumns row1 row2 = newSet [] (map fst row1 @ map fst row2)"

definition isChanged :: "row \<Rightarrow> row \<Rightarrow> bool" where
  "isChanged row1 row2 = (\<exists>c \<in> fst ` set row1 \<union> fst ` set row2. differs row1 row2 c)"

definition bothChanged :: "index \<Rightarrow> string \<times> row \<Rightarrow> bool" where
  "bothChanged m2 e =
     (case map_of m2 (fst e) of None \<Rightarrow> False | Some r2 \<Rightarrow> isChanged (snd e) r2)"

definition bothSame :: "index \<Rightarrow> string \<times> row \<Rightarrow> bool" where
  "bothSame m2 e =
     (case map_of m2 (fst e) of None \<Rightarrow> False | Some r2 \<Rightarrow> \<not> isChanged (snd e) r2)"

text \<open>A row has a blank key when the key column is absent from it or holds only
  white space.\<close>

definition blankKey :: "string \<Rightarrow> row \<Rightarrow> bool" where
  "blankKey keyColumn row = (case map_of row keyColumn of None \<Rightarrow> True | Some k \<Rightarrow> trim k = [])"

text \<open>A row is trimmed when none of its values has white space at either end.\<close>

definition trimmedRow :: "row \<Rightarrow> bool" where
  "trimmedRow row = (\<forall>(c, v) \<in> set row. trim v = v)"

text \<open>A dataset in which two rows share the key 1.\<close>

definition repeatedKeyFile :: ParsedDataset where
  "repeatedKeyFile =
     \<lparr>headers = [''id'', ''v''],
      rows = [[(''id'', ''1''), (''v'', ''a'')], [(''id'', ''1''), (''v'', ''b'')]],
      delimiter = NameComma\<rparr>"

text \<open>A string is tight when it is empty or has no white space at either end.\<close>

definition tight :: "string \<Rightarrow> bool" where
  "tight s = (s = [] \<or> (\<not> isSpace (hd s) \<and> \<not> isSpace (last s)))"

text \<open>Position \<open>i\<close> is the last occurrence of its header name in the header list.\<close>

definition lastOccurrence :: "string list \<Rightarrow> nat \<Rightarrow> bool" where
  "lastOccurrence hs i = (i < length hs \<and> (\<forall>j \<in> {Suc i..<length hs}. hs ! j \<noteq> hs ! i))"

text \<open>The row a data line gives, and whether the line survives: it is not blank and its
  row has a non-empty value.\<close>

definition rowOfLine :: "char \<Rightarrow> string list \<Rightarrow> string \<Rightarrow> row" where
  "rowOfLine d hs l = buildRow hs (split_char d (trim l))"

definition survives :: "char \<Rightarrow> string list \<Rightarrow> string \<Rightarrow> bool" where
  "survives d hs l = (trim l \<noteq> [] \<and> someNonEmpty (rowOfLine d hs l))"

text \<open>The lines of the trimmed content that are not empty.\<close>

definition nonEmptyLines :: "string \<Rightarrow> string list" where
  "nonEmptyLines content = filter (\<lambda>l. l \<noteq> []) (split_lines (trim content))"

text \<open>The same text with every line feed written as carriage return and line feed.\<close>

fun crlf :: "string \<Rightarrow> string" where
  "crlf [] = []"
| "crlf (c # cs) = (if c = LF then CR # LF # crlf cs else c # crlf cs)"

text \<open>Two lines are alike when the second is the first, or the first with a carriage
  return after it.\<close>

definition alike :: "string \<Rightarrow> string \<Rightarrow> bool" where
  "alike l l' = (l' = l \<or> l' = l @ [CR])"

text \<open>Appending a character to the last piece of a split.\<close>

definition snocLast :: "string list \<Rightarrow> char \<Rightarrow> string list" where
  "snocLast ls c = butlast ls @ [last ls @ [c]]"


text \<open>Comparing two rows reads an inherited member when a column of one of them is a
  member name of \<open>Object.prototype\<close> that the other lacks; the pass over the keys of both
  indices throws when that happens for the rows of some key.\<close>

definition inheritedRead :: "row \<Rightarrow> row \<Rightarrow> bool" where
  "inheritedRead row1 row2 =
     (\<exists>c \<in> set (allColumns row1 row2). getProp row1 c = Inherited \<or> getProp row2 c = Inherited)"

definition passThrows :: "index \<Rightarrow> index \<Rightarrow> bool" where
  "passThrows m1 m2 =
     (\<exists>(key, row1) \<in> set m1.
        case map_of m2 key of None \<Rightarrow> False | Some row2 \<Rightarrow> inheritedRead row1 row2)"






text \<open>The result of comparing \<open>repeatedKeyFile\<close> with itself.\<close>

definition repeatedKeyResult :: ComparisonResult where
  "repeatedKeyResult =
     \<lparr>added = [], removed = [], changed = [],
      unchanged = [Unchanged ''1'' [(''id'', ''1''), (''v'', ''b'')]],
      stats = \<lparr>total1 = 2, total2 = 2, addedCount = 0, removedCount = 0, changedCount = 0,
                unchangedCount = 1\<rparr>\<rparr>"

text \<open>Three parsed files with one row of key 1: the first has the column \<open>id\<close> alone, the
  second a column named \<open>constructor\<close> as well, the third a column named \<open>note\<close> instead;
  and the result of comparing the first with the third.\<close>

definition idFile :: ParsedDataset where
  "idFile = \<lparr>headers = [''id''], rows = [[(''id'', ''1'')]], delimiter = NameComma\<rparr>"

definition constructorFile :: ParsedDataset where
  "constructorFile =
     \<lparr>headers = [''id'', ''constructor''],
      rows = [[(''id'', ''1''), (''constructor'', ''x'')]], delimiter = NameComma\<rparr>"

definition noteFile :: ParsedDataset where
  "noteFile =
     \<lparr>headers = [''id'', ''note''],
      rows = [[(''id'', ''1''), (''note'', ''x'')]], delimiter = NameComma\<rparr>"

definition noteResult :: ComparisonResult where
  "noteResult =
     \<lparr>added = [], removed = [],
      changed = [Changed ''1'' [(''id'', ''1'')] [(''id'', ''1''), (''note'', ''x'')]
                   [(''note'', ([], ''x''))]],
      unchanged = [],
      stats = \<lparr>total1 = 1, total2 = 1, addedCount = 0, removedCount = 0, changedCount = 1,
                unchangedCount = 0\<rparr>\<rparr>"

text \<open>Tab-separated contents whose data line starts with an empty cell: the header line
  is \<open>a\<close>, tab, \<open>a\<close> or \<open>a\<close>, tab, \<open>b\<close>, and the data line is tab, \<open>4\<close>, or tab, \<open>4\<close>,
  tab, \<open>5\<close>.\<close>

definition emptyCellLine :: string where
  "emptyCellLine = [TAB] @ ''4''"

definition emptyCellLine2 :: string where
  "emptyCellLine2 = [TAB] @ ''4'' @ [TAB] @ ''5''"

definition emptyCellSame :: string where
  "emptyCellSame = ''a'' @ [TAB] @ ''a'' @ [LF] @ emptyCellLine"

definition emptyCellOther :: string where
  "emptyCellOther = ''a'' @ [TAB] @ ''b'' @ [LF] @ emptyCellLine"

definition emptyCellSame2 :: string where
  "emptyCellSame2 = ''a'' @ [TAB] @ ''a'' @ [LF] @ emptyCellLine2"
section \<open>The earlier variant of the script\<close>

text \<open>
  The earlier variant of the script (\<open>script.js\<close>) splits on the line feed alone, does not
  trim the data lines, and checks neither for an empty content, nor for an empty header, nor
  for the absence of rows.
\<close>

definition getDelimiter_v0 :: "string option \<Rightarrow> string \<Rightarrow> string \<Rightarrow> char" where
  "getDelimiter_v0 delimiterSelect content filename =
     (let selectedDelimiter = (case delimiterSelect of Some v \<Rightarrow> v | None \<Rightarrow> ''auto'')
      in if selectedDelimiter \<noteq> ''auto''
         then (case delimiterMap selectedDelimiter of Some d \<Rightarrow> d | None \<Rightarrow> TAB)
         else
           let firstLine = firstOf (split_char LF content)
           in if endsWith (toLowerCase filename) ''.csv'' then CHR '',''
              else if endsWith (toLowerCase filename) ''.tsv'' then TAB
              else
                let counts = (\<lambda>d. countChar d firstLine);
                    maxCount = Max (set (map counts priority))
                in if maxCount = 0 then TAB
                   else (case find (\<lambda>d. counts d = maxCount) priority of
                           Some d \<Rightarrow> d | None \<Rightarrow> TAB))"

fun parseLines_v0 :: "char \<Rightarrow> string list \<Rightarrow> string list \<Rightarrow> row list" where
  "parseLines_v0 d hs [] = []"
| "parseLines_v0 d hs (l # ls) =
     (let row = buildRow hs (split_char d l)
      in if someNonEmpty row then row # parseLines_v0 d hs ls
         else parseLines_v0 d hs ls)"

definition parseFile_v0 :: "string option \<Rightarrow> string \<Rightarrow> string \<Rightarrow> error + ParsedDataset" where
  "parseFile_v0 delimiterSelect content filename =
     (let lines = split_char LF (trim content)
      in if length lines < 2 then Inl HeaderAndDataRequired
         else
           let d = getDelimiter_v0 delimiterSelect content filename;
               delimiterName = getDelimiterName d;
               hs = map trim (split_char d (firstOf lines));
               rs = parseLines_v0 d hs (tl lines)
           in Inr \<lparr>headers = hs, rows = rs, delimiter = delimiterName\<rparr>)"

section \<open>Insertion-ordered maps and the key index\<close>

lemma map_of_upsert: "map_of (upsert m k v) = (map_of m)(k \<mapsto> v)"
  by (induction m) (auto simp: fun_eq_iff)

lemma keys_upsert:
  "map fst (upsert m k v) = (if k \<in> set (map fst m) then map fst m else map fst m @ [k])"
  by (induction m) (force split: if_splits)+

lemma set_upsert: "set (upsert m k v) \<subseteq> insert (k, v) (set m)"
  by (induction m) (auto split: if_splits)

lemma distinct_upsert: "distinct (map fst m) \<Longrightarrow> distinct (map fst (upsert m k v))"
  by (simp add: keys_upsert)

lemma upsert_fresh: "k \<notin> set (map fst m) \<Longrightarrow> upsert m k v = m @ [(k, v)]"
  by (induction m) auto

lemma set_newSet: "set (newSet acc xs) = set acc \<union> set xs"
  by (induction xs arbitrary: acc) auto

lemma distinct_newSet: "distinct acc \<Longrightarrow> distinct (newSet acc xs)"
  by (induction xs arbitrary: acc) auto

lemma keys_indexOf:
  "map fst (indexOf kc rs m) = newSet (map fst m) (rowKeys kc rs)"
  by (induction rs arbitrary: m) (auto simp: rowKeys_def keys_upsert usableKey_def split: option.splits)

lemma distinct_indexOf: "distinct (map fst m) \<Longrightarrow> distinct (map fst (indexOf kc rs m))"
  by (simp add: keys_indexOf distinct_newSet)

lemma indexOf_filter:
  "indexOf kc (filter (\<lambda>row. usableKey (map_of row kc)) rs) m = indexOf kc rs m"
  by (induction rs arbitrary: m) (auto simp: usableKey_def split: option.splits)

lemma indexOf_append:
  "indexOf kc (xs @ ys) m = indexOf kc ys (indexOf kc xs m)"
  by (induction xs arbitrary: m) (auto split: option.splits)

lemma map_of_indexOf_other:
  "\<forall>y \<in> set ys. map_of y kc \<noteq> Some k \<Longrightarrow> map_of (indexOf kc ys m) k = map_of m k"
  by (induction ys arbitrary: m) (auto simp: map_of_upsert split: option.splits)

lemma indexOf_entries:
  "(k, row) \<in> set (indexOf kc rs m) \<Longrightarrow>
     (k, row) \<in> set m \<or> (row \<in> set rs \<and> map_of row kc = Some k \<and> usableKey (Some k))"
proof (induction rs arbitrary: m)
  case Nil
  then show ?case by simp
next
  case (Cons r rs)
  show ?case
  proof (cases "map_of r kc")
    case None
    with Cons show ?thesis by auto
  next
    case (Some key)
    show ?thesis
    proof (cases "usableKey (Some key)")
      case True
      with Some Cons.prems have "(k, row) \<in> set (indexOf kc rs (upsert m key r))" by simp
      from Cons.IH[OF this] have
        "(k, row) \<in> set (upsert m key r) \<or> (row \<in> set rs \<and> map_of row kc = Some k \<and> usableKey (Some k))" .
      moreover have "(k, row) \<in> set (upsert m key r) \<Longrightarrow> (k, row) \<in> set m \<or> (k = key \<and> row = r)"
        using set_upsert[of m key r] by auto
      ultimately show ?thesis using Some True by auto
    next
      case False
      with Some Cons show ?thesis by auto
    qed
  qed
qed

lemma length_newSet: "distinct acc \<Longrightarrow> length (newSet acc xs) = card (set acc \<union> set xs)"
  using distinct_card[OF distinct_newSet, of acc xs] by (simp add: set_newSet)

section \<open>The three passes of the comparison\<close>



lemma foldl_diffColumn:
  "distinct cols \<Longrightarrow> set cols \<inter> set (map fst ds) = {} \<Longrightarrow> ''__proto__'' \<notin> set cols \<Longrightarrow>
   foldl (diffColumn r1 r2) (ds, b) cols =
     (ds @ map (\<lambda>c. (c, (trim (valueOr r1 c), trim (valueOr r2 c)))) (filter (differs r1 r2) cols),
      b \<or> filter (differs r1 r2) cols \<noteq> [])"
proof (induction cols arbitrary: ds b)
  case Nil
  then show ?case by simp
next
  case (Cons c cols)
  show ?case
  proof (cases "differs r1 r2 c")
    case True
    have fresh: "c \<notin> set (map fst ds)" and plain: "c \<noteq> ''__proto__''"
      using Cons.prems by auto
    have step: "diffColumn r1 r2 (ds, b) c =
                  (ds @ [(c, (trim (valueOr r1 c), trim (valueOr r2 c)))], True)"
      using True fresh plain by (simp add: diffColumn_def differs_def setProp_def upsert_fresh)
    have "set cols \<inter> set (map fst (ds @ [(c, (trim (valueOr r1 c), trim (valueOr r2 c)))])) = {}"
      using Cons.prems by auto
    with Cons.IH[of "ds @ [(c, (trim (valueOr r1 c), trim (valueOr r2 c)))]" True] Cons.prems
    show ?thesis using True step by simp
  next
    case False
    have step: "diffColumn r1 r2 (ds, b) c = (ds, b)"
      using False by (simp add: diffColumn_def differs_def)
    have "set cols \<inter> set (map fst ds) = {}" using Cons.prems by auto
    with Cons.IH[of ds b] Cons.prems show ?thesis using False step by simp
  qed
qed

lemma rowDiff_eq:
  "''__proto__'' \<notin> set (allColumns r1 r2) \<Longrightarrow>
   rowDiff r1 r2 =
     (map (\<lambda>c. (c, (trim (valueOr r1 c), trim (valueOr r2 c))))
        (filter (differs r1 r2) (allColumns r1 r2)),
      filter (differs r1 r2) (allColumns r1 r2) \<noteq> [])"
proof -
  assume plain: "''__proto__'' \<notin> set (allColumns r1 r2)"
  have "distinct (allColumns r1 r2)" by (simp add: allColumns_def distinct_newSet)
  then show ?thesis
    using foldl_diffColumn[of "allColumns r1 r2" "[]" r1 r2 False] plain
    by (simp add: rowDiff_def allColumns_def)
qed

lemma foldl_diffColumn_snd:
  "snd (foldl (diffColumn r1 r2) (ds, b) cols) = (b \<or> filter (differs r1 r2) cols \<noteq> [])"
  by (induction cols arbitrary: ds b) (auto simp: diffColumn_def differs_def Let_def)

lemma set_allColumns: "set (allColumns r1 r2) = fst ` set r1 \<union> fst ` set r2"
  by (simp add: allColumns_def set_newSet)

lemma hasChanges_iff: "snd (rowDiff r1 r2) = isChanged r1 r2"
  unfolding rowDiff_def Let_def foldl_diffColumn_snd
  by (auto simp: isChanged_def filter_empty_conv set_newSet)

lemma bothPass_fst:
  "fst (bothPass m1 m2) =
     concat (map (\<lambda>(k, r1). case map_of m2 k of None \<Rightarrow> []
        | Some r2 \<Rightarrow> if isChanged r1 r2 then [Changed k r1 r2 (fst (rowDiff r1 r2))] else []) m1)"
  by (induction m1) (auto simp: hasChanges_iff[symmetric] split: option.splits prod.splits)

lemma bothPass_snd:
  "snd (bothPass m1 m2) =
     concat (map (\<lambda>(k, r1). case map_of m2 k of None \<Rightarrow> []
        | Some r2 \<Rightarrow> if isChanged r1 r2 then [] else [Unchanged k r1]) m1)"
  by (induction m1) (auto simp: hasChanges_iff[symmetric] split: option.splits prod.splits)

lemma keys_addedPass:
  "map entryKey (addedPass m1 m2) = filter (\<lambda>k. k \<notin> set (map fst m1)) (map fst m2)"
  by (induction m2) (force simp: map_of_eq_None_iff)+

lemma keys_removedPass:
  "map entryKey (removedPass m1 m2) = filter (\<lambda>k. k \<notin> set (map fst m2)) (map fst m1)"
  by (induction m1) (force simp: map_of_eq_None_iff)+

lemma keys_bothPass_fst:
  "map entryKey (fst (bothPass m1 m2)) = map fst (filter (bothChanged m2) m1)"
  by (induction m1) (auto simp: bothChanged_def hasChanges_iff[symmetric] split: option.splits prod.splits)

lemma keys_bothPass_snd:
  "map entryKey (snd (bothPass m1 m2)) = map fst (filter (bothSame m2) m1)"
  by (induction m1) (auto simp: bothSame_def hasChanges_iff[symmetric] split: option.splits prod.splits)






lemma mem_keys_filter:
  "distinct (map fst xs) \<Longrightarrow>
   k \<in> set (map fst (filter P xs)) \<longleftrightarrow> (\<exists>v. map_of xs k = Some v \<and> P (k, v))"
  by (auto simp: image_iff)





section \<open>Trimming\<close>

lemma trim_Nil [simp]: "trim [] = []"
  by (simp add: trim_def)

lemma trim_empty_iff: "trim s = [] \<longleftrightarrow> (\<forall>c \<in> set s. isSpace c)"
proof
  assume "trim s = []"
  then have "dropWhile isSpace (rev (dropWhile isSpace s)) = []" by (simp add: trim_def)
  then have "\<forall>c \<in> set (dropWhile isSpace s). isSpace c"
    by (simp add: dropWhile_eq_Nil_conv)
  moreover have "\<forall>c \<in> set (takeWhile isSpace s). isSpace c"
    by (auto dest: set_takeWhileD)
  ultimately show "\<forall>c \<in> set s. isSpace c"
    by (metis Un_iff set_append takeWhile_dropWhile_id)
next
  assume "\<forall>c \<in> set s. isSpace c"
  then have d: "dropWhile isSpace s = []" by (metis dropWhile_eq_Nil_conv)
  show "trim s = []" unfolding trim_def d by simp
qed

lemma trim_sandwich:
  assumes a: "\<forall>c \<in> set a. isSpace c" and b: "\<forall>c \<in> set b. isSpace c" and t: "tight t"
  shows "trim (a @ t @ b) = t"
proof (cases "t = []")
  case True
  then have "\<forall>c \<in> set (a @ t @ b). isSpace c" using a b by auto
  then show ?thesis using True by (simp only: trim_empty_iff[symmetric])
next
  case False
  then have h: "\<not> isSpace (hd t)" and l: "\<not> isSpace (last t)" using t by (auto simp: tight_def)
  have 1: "dropWhile isSpace (a @ t @ b) = t @ b"
  proof -
    have "dropWhile isSpace (a @ (t @ b)) = dropWhile isSpace (t @ b)"
      by (rule dropWhile_append2) (use a in simp)
    also have "\<dots> = t @ b"
      using False h by (cases t) auto
    finally show ?thesis .
  qed
  have 2: "dropWhile isSpace (rev (t @ b)) = rev t"
  proof -
    have "dropWhile isSpace (rev b @ rev t) = dropWhile isSpace (rev t)"
      by (rule dropWhile_append2) (use b in simp)
    also have "\<dots> = rev t"
      using False l by (cases "rev t") (auto simp: last_rev[symmetric] hd_rev)
    finally show ?thesis by simp
  qed
  show ?thesis unfolding trim_def 1 2 by simp
qed

lemma trim_decompose:
  "\<exists>a b. s = a @ trim s @ b \<and> (\<forall>c \<in> set a. isSpace c) \<and> (\<forall>c \<in> set b. isSpace c)"
proof -
  let ?a = "takeWhile isSpace s"
  let ?m = "dropWhile isSpace s"
  let ?b = "rev (takeWhile isSpace (rev ?m))"
  have "rev ?m = takeWhile isSpace (rev ?m) @ dropWhile isSpace (rev ?m)" by simp
  then have "?m = rev (dropWhile isSpace (rev ?m)) @ ?b"
    by (metis rev_append rev_rev_ident)
  then have "s = ?a @ trim s @ ?b"
    unfolding trim_def by (metis takeWhile_dropWhile_id)
  moreover have "\<forall>c \<in> set ?a. isSpace c" by (auto dest: set_takeWhileD)
  moreover have "\<forall>c \<in> set ?b. isSpace c" by (auto dest: set_takeWhileD)
  ultimately show ?thesis by blast
qed

lemma tight_trim: "tight (trim s)"
proof (cases "trim s = []")
  case True
  then show ?thesis by (simp add: tight_def)
next
  case False
  let ?m = "dropWhile isSpace s"
  let ?e = "dropWhile isSpace (rev ?m)"
  have e: "?e \<noteq> []" using False by (simp add: trim_def)
  then have he: "\<not> isSpace (hd ?e)" by (rule hd_dropWhile)
  have m: "?m \<noteq> []" using e by (metis dropWhile.simps(1) rev.simps(1))
  then have hm: "\<not> isSpace (hd ?m)" by (rule hd_dropWhile)
  have last_t: "last (trim s) = hd ?e" unfolding trim_def using e by (simp add: last_rev)
  have "last ?e = last (rev ?m)"
    using e by (metis last_appendR takeWhile_dropWhile_id)
  then have "hd (trim s) = hd ?m"
    unfolding trim_def using e m by (simp add: hd_rev last_rev)
  with hm he last_t False show ?thesis by (simp add: tight_def)
qed

lemma trim_tight: "tight s \<Longrightarrow> trim s = s"
  using trim_sandwich[of "[]" "[]" s] by simp

lemma trim_idem: "trim (trim s) = trim s"
  by (rule trim_tight[OF tight_trim])

lemma trim_pad:
  assumes "\<forall>c \<in> set a. isSpace c" and "\<forall>c \<in> set b. isSpace c"
  shows "trim (a @ s @ b) = trim s"
proof -
  obtain a' b' where s: "s = a' @ trim s @ b'" and a': "\<forall>c \<in> set a'. isSpace c"
    and b': "\<forall>c \<in> set b'. isSpace c"
    using trim_decompose by blast
  have "a @ s @ b = (a @ a') @ trim s @ (b' @ b)" using s by (metis append.assoc)
  moreover have "trim ((a @ a') @ trim s @ (b' @ b)) = trim s"
    using assms a' b' by (intro trim_sandwich tight_trim) auto
  ultimately show ?thesis by metis
qed

lemma trim_snoc_space: "isSpace c \<Longrightarrow> trim (s @ [c]) = trim s"
  using trim_pad[of "[]" "[c]" s] by simp

lemma isSpace_simps [simp]: "isSpace LF" "isSpace CR" "isSpace TAB"
  "\<not> isSpace (CHR '','')" "\<not> isSpace (CHR '';'')" "\<not> isSpace (CHR ''|'')"
  by (simp_all add: isSpace_def)

section \<open>Building a row from a line\<close>

lemma buildRow_Nil: "buildRow [] vs = []"
  by (simp add: buildRow_def)

lemma buildRow_snoc:
  "buildRow (hs @ [h]) vs = setProp (buildRow hs vs) h (trim (fieldAt vs (length hs)))"
  by (simp add: buildRow_def enumerate_append_eq)

lemma newSet_snoc:
  "newSet acc (xs @ [x]) = (if x \<in> set (newSet acc xs) then newSet acc xs else newSet acc xs @ [x])"
  by (induction xs arbitrary: acc) auto

text \<open>The columns of a row are the header names other than \<open>__proto__\<close>, each once, in
  the order of their first occurrence.\<close>

lemma keys_buildRow:
  "map fst (buildRow hs vs) = newSet [] (filter (\<lambda>h. h \<noteq> ''__proto__'') hs)"
proof (induction hs rule: rev_induct)
  case Nil
  then show ?case by (simp add: buildRow_Nil)
next
  case (snoc h hs)
  show ?case
  proof (cases "h = ''__proto__''")
    case True
    then show ?thesis using snoc.IH by (simp add: buildRow_snoc setProp_def)
  next
    case False
    have "map fst (buildRow (hs @ [h]) vs)
            = map fst (upsert (buildRow hs vs) h (trim (fieldAt vs (length hs))))"
      using False by (simp add: buildRow_snoc setProp_def)
    also have "\<dots> = newSet [] (filter (\<lambda>h. h \<noteq> ''__proto__'') hs @ [h])"
      unfolding keys_upsert newSet_snoc snoc.IH ..
    finally show ?thesis using False by simp
  qed
qed

lemma distinct_buildRow: "distinct (map fst (buildRow hs vs))"
  by (simp add: keys_buildRow distinct_newSet)

lemma set_keys_buildRow: "fst ` set (buildRow hs vs) = set hs - {''__proto__''}"
proof -
  have "fst ` set (buildRow hs vs) = set (map fst (buildRow hs vs))" by simp
  also have "\<dots> = set (filter (\<lambda>h. h \<noteq> ''__proto__'') hs)"
    unfolding keys_buildRow by (simp add: set_newSet)
  also have "\<dots> = set hs - {''__proto__''}" by auto
  finally show ?thesis .
qed

lemma map_of_buildRow_proto: "map_of (buildRow hs vs) ''__proto__'' = None"
  unfolding map_of_eq_None_iff set_keys_buildRow by simp

lemma lastOccurrence_snoc:
  "lastOccurrence (hs @ [h]) i \<longleftrightarrow> i = length hs \<or> (lastOccurrence hs i \<and> hs ! i \<noteq> h)"
proof (cases "i < length hs")
  case True
  have "(\<forall>j \<in> {Suc i..<Suc (length hs)}. (hs @ [h]) ! j \<noteq> hs ! i)
          \<longleftrightarrow> (\<forall>j \<in> {Suc i..<length hs}. hs ! j \<noteq> hs ! i) \<and> h \<noteq> hs ! i"
  proof -
    have "{Suc i..<Suc (length hs)} = insert (length hs) {Suc i..<length hs}"
      using True by auto
    then show ?thesis by (auto simp: nth_append)
  qed
  with True show ?thesis by (auto simp: lastOccurrence_def nth_append)
next
  case False
  then show ?thesis by (auto simp: lastOccurrence_def)
qed

lemma map_of_buildRow_last:
  "lastOccurrence hs i \<Longrightarrow> hs ! i \<noteq> ''__proto__'' \<Longrightarrow>
   map_of (buildRow hs vs) (hs ! i) = Some (trim (fieldAt vs i))"
proof (induction hs rule: rev_induct)
  case Nil
  then show ?case by (simp add: lastOccurrence_def)
next
  case (snoc h hs)
  from snoc.prems(1) consider "i = length hs" | "lastOccurrence hs i" "hs ! i \<noteq> h"
    unfolding lastOccurrence_snoc by blast
  then show ?case
  proof cases
    case 1
    then have "h \<noteq> ''__proto__''" using snoc.prems(2) by simp
    with 1 show ?thesis by (simp add: buildRow_snoc setProp_def map_of_upsert)
  next
    case 2
    then have lt: "i < length hs" by (simp add: lastOccurrence_def)
    then have "hs ! i \<noteq> ''__proto__''" using snoc.prems(2) by (simp add: nth_append)
    with 2 lt snoc.IH show ?thesis
      by (simp add: buildRow_snoc setProp_def map_of_upsert nth_append)
  qed
qed

lemma header_has_last: "h \<in> set hs \<Longrightarrow> \<exists>i. lastOccurrence hs i \<and> hs ! i = h"
proof (induction hs rule: rev_induct)
  case Nil
  then show ?case by simp
next
  case (snoc x hs)
  show ?case
  proof (cases "x = h")
    case True
    have "lastOccurrence (hs @ [x]) (length hs)" unfolding lastOccurrence_snoc by simp
    with True show ?thesis by (metis nth_append_length)
  next
    case False
    with snoc obtain i where i: "lastOccurrence hs i" "hs ! i = h" by auto
    then have "i < length hs" by (simp add: lastOccurrence_def)
    with i False have "lastOccurrence (hs @ [x]) i \<and> (hs @ [x]) ! i = h"
      unfolding lastOccurrence_snoc by (auto simp: nth_append)
    then show ?thesis by blast
  qed
qed

lemma buildRow_entry:
  assumes "(c, v) \<in> set (buildRow hs vs)"
  shows "\<exists>i. lastOccurrence hs i \<and> c = hs ! i \<and> c \<noteq> ''__proto__'' \<and> v = trim (fieldAt vs i)"
proof -
  have "c \<in> fst ` set (buildRow hs vs)" using assms by force
  then have c: "c \<in> set hs" "c \<noteq> ''__proto__''" unfolding set_keys_buildRow by auto
  then obtain i where i: "lastOccurrence hs i" "hs ! i = c" using header_has_last by blast
  have "map_of (buildRow hs vs) c = Some v"
    using assms distinct_buildRow by (rule map_of_is_SomeI[rotated])
  moreover have "map_of (buildRow hs vs) (hs ! i) = Some (trim (fieldAt vs i))"
    using i c(2) by (intro map_of_buildRow_last) simp_all
  ultimately show ?thesis using i c(2) by auto
qed

lemma trimmedRow_buildRow: "trimmedRow (buildRow hs vs)"
  unfolding trimmedRow_def using buildRow_entry trim_idem by fastforce

lemma someNonEmpty_buildRow:
  "someNonEmpty (buildRow hs vs) \<longleftrightarrow>
     (\<exists>i. lastOccurrence hs i \<and> hs ! i \<noteq> ''__proto__'' \<and> trim (fieldAt vs i) \<noteq> [])"
proof
  assume "someNonEmpty (buildRow hs vs)"
  then obtain c v where "(c, v) \<in> set (buildRow hs vs)" "v \<noteq> []"
    by (auto simp: someNonEmpty_def)
  then show "\<exists>i. lastOccurrence hs i \<and> hs ! i \<noteq> ''__proto__'' \<and> trim (fieldAt vs i) \<noteq> []"
    using buildRow_entry by blast
next
  assume "\<exists>i. lastOccurrence hs i \<and> hs ! i \<noteq> ''__proto__'' \<and> trim (fieldAt vs i) \<noteq> []"
  then obtain i where i: "lastOccurrence hs i" "hs ! i \<noteq> ''__proto__''"
    "trim (fieldAt vs i) \<noteq> []" by blast
  have "(hs ! i, trim (fieldAt vs i)) \<in> set (buildRow hs vs)"
    using map_of_buildRow_last[OF i(1,2)] by (rule map_of_SomeD)
  then show "someNonEmpty (buildRow hs vs)"
    using i(3) unfolding someNonEmpty_def by force
qed

lemma alist_from_keys:
  "distinct (map fst xs) \<Longrightarrow> map (\<lambda>k. (k, the (map_of xs k))) (map fst xs) = xs"
proof (induction xs)
  case Nil
  then show ?case by simp
next
  case (Cons x xs)
  obtain a b where x: "x = (a, b)" by (cases x)
  define F where "F = (\<lambda>k. (k, the (map_of (x # xs) k)))"
  have fresh: "a \<notin> set (map fst xs)" using Cons.prems x by simp
  have "map F (map fst xs) = map (\<lambda>k. (k, the (map_of xs k))) (map fst xs)"
  proof (rule map_cong[OF refl])
    fix k assume "k \<in> set (map fst xs)"
    with fresh have "k \<noteq> a" by blast
    then show "F k = (k, the (map_of xs k))" by (simp add: F_def x)
  qed
  also have "\<dots> = xs" using Cons by simp
  finally have rest: "map F (map fst xs) = xs" .
  have Fa: "F a = (a, b)" by (simp add: F_def x)
  have "map F (map fst (x # xs)) = x # xs"
    unfolding x list.map fst_conv Fa rest[unfolded x] ..
  then show ?case by (simp only: F_def)
qed

lemma alist_eqI:
  assumes d: "distinct (map fst xs)" and keys: "map fst xs = map fst ys"
    and vals: "\<And>k. k \<in> set (map fst xs) \<Longrightarrow> map_of xs k = map_of ys k"
  shows "xs = ys"
proof -
  have d': "distinct (map fst ys)" using d keys by simp
  have "map (\<lambda>k. (k, the (map_of xs k))) (map fst xs)
          = map (\<lambda>k. (k, the (map_of ys k))) (map fst xs)"
    by (rule map_cong[OF refl]) (simp add: vals)
  then have "map (\<lambda>k. (k, the (map_of xs k))) (map fst xs)
          = map (\<lambda>k. (k, the (map_of ys k))) (map fst ys)"
    by (simp only: keys)
  then show ?thesis
    by (simp only: alist_from_keys[OF d] alist_from_keys[OF d'])
qed

lemma buildRow_cong:
  assumes "\<forall>i. lastOccurrence hs i \<longrightarrow> trim (fieldAt vs i) = trim (fieldAt vs' i)"
  shows "buildRow hs vs = buildRow hs vs'"
proof (rule alist_eqI)
  show "distinct (map fst (buildRow hs vs))" by (rule distinct_buildRow)
  show "map fst (buildRow hs vs) = map fst (buildRow hs vs')" by (simp add: keys_buildRow)
  fix k assume "k \<in> set (map fst (buildRow hs vs))"
  then have k: "k \<in> set hs" "k \<noteq> ''__proto__''" by (simp_all add: keys_buildRow set_newSet)
  then obtain i where i: "lastOccurrence hs i" "hs ! i = k" using header_has_last by blast
  have p: "hs ! i \<noteq> ''__proto__''" using i(2) k(2) by simp
  show "map_of (buildRow hs vs) k = map_of (buildRow hs vs') k"
    using map_of_buildRow_last[OF i(1) p, of vs] map_of_buildRow_last[OF i(1) p, of vs'] assms i
    by simp
qed

lemma length_buildRow: "length (buildRow hs vs) = card (set hs - {''__proto__''})"
proof -
  have "length (buildRow hs vs) = length (map fst (buildRow hs vs))" by simp
  also have "\<dots> = card (set (filter (\<lambda>h. h \<noteq> ''__proto__'') hs))"
    unfolding keys_buildRow
    using length_newSet[of "[]" "filter (\<lambda>h. h \<noteq> ''__proto__'') hs"] by simp
  also have "set (filter (\<lambda>h. h \<noteq> ''__proto__'') hs) = set hs - {''__proto__''}" by auto
  finally show ?thesis .
qed

lemma parseLines_eq:
  "parseLines d hs ls =
     filter someNonEmpty
       (map (\<lambda>l. buildRow hs (split_char d l)) (filter (\<lambda>l. l \<noteq> []) (map trim ls)))"
  by (induction ls) (simp_all add: Let_def)

section \<open>Lines\<close>

lemma parseLines_survivors:
  "parseLines d hs ls = map (rowOfLine d hs) (filter (survives d hs) ls)"
  by (induction ls) (simp_all add: Let_def rowOfLine_def survives_def)

lemma consHead_nonempty: "consHead c ls \<noteq> []"
  by (cases ls) simp_all

lemma split_char_nonempty: "split_char d s \<noteq> []"
  by (cases s) (simp_all add: consHead_nonempty)

lemma split_lines_nonempty: "split_lines s \<noteq> []"
  by (induction s rule: split_lines.induct) (simp_all add: consHead_nonempty)

lemma firstOf_consHead: "firstOf (consHead c ls) \<noteq> []"
  by (cases ls) simp_all

lemma last_consHead: "(ls \<noteq> [] \<Longrightarrow> last ls \<noteq> []) \<Longrightarrow> last (consHead c ls) \<noteq> []"
  by (cases ls) (auto split: if_splits)

lemma length_consHead: "ls \<noteq> [] \<Longrightarrow> length (consHead c ls) = length ls"
  by (cases ls) simp_all

lemma first_line_nonempty:
  assumes "s \<noteq> []" and "\<not> isSpace (hd s)"
  shows "firstOf (split_lines s) \<noteq> []"
proof (cases s rule: split_lines.cases)
  case 1
  with assms show ?thesis by simp
next
  case (2 c)
  with assms have "c \<noteq> LF" by auto
  with 2 show ?thesis by simp
next
  case (3 c d cs)
  with assms have "c \<noteq> LF" and "c \<noteq> CR" by auto
  with 3 show ?thesis by (simp add: firstOf_consHead)
qed

lemma last_line_nonempty:
  "s \<noteq> [] \<Longrightarrow> last s \<noteq> LF \<Longrightarrow> last (split_lines s) \<noteq> []"
proof (induction s rule: split_lines.induct)
  case 1
  then show ?case by simp
next
  case (2 c)
  then show ?case by simp
next
  case (3 c d cs)
  show ?case
  proof (cases "c = LF")
    case True
    with 3 show ?thesis by (simp add: split_lines_nonempty)
  next
    case notLF: False
    show ?thesis
    proof (cases "c = CR \<and> d = LF")
      case True
      with "3.prems" have "cs \<noteq> []" by auto
      with True notLF 3 show ?thesis by (simp add: split_lines_nonempty)
    next
      case False
      have "last (split_lines (d # cs)) \<noteq> []"
        using "3.IH"(3)[OF notLF False] "3.prems" by simp
      then have "last (consHead c (split_lines (d # cs))) \<noteq> []"
        by (intro last_consHead)
      moreover have "split_lines (c # d # cs) = consHead c (split_lines (d # cs))"
        using notLF False by auto
      ultimately show ?thesis by metis
    qed
  qed
qed

lemma two_lines_iff:
  assumes t: "trim content \<noteq> []"
  shows "length (nonEmptyLines content) < 2 \<longleftrightarrow> length (split_lines (trim content)) < 2"
proof
  assume "length (split_lines (trim content)) < 2"
  moreover have "length (nonEmptyLines content) \<le> length (split_lines (trim content))"
    unfolding nonEmptyLines_def by (rule length_filter_le)
  ultimately show "length (nonEmptyLines content) < 2" by linarith
next
  assume few: "length (nonEmptyLines content) < 2"
  show "length (split_lines (trim content)) < 2"
  proof (rule ccontr)
    assume "\<not> length (split_lines (trim content)) < 2"
    then have "2 \<le> length (split_lines (trim content))" by simp
    then obtain a b rest where ls: "split_lines (trim content) = a # b # rest"
      by (metis Suc_le_length_iff numeral_2_eq_2)
    have tt: "\<not> isSpace (hd (trim content))" "\<not> isSpace (last (trim content))"
      using tight_trim[of content] t by (auto simp: tight_def)
    have a: "a \<noteq> []" using first_line_nonempty[OF t tt(1)] ls by simp
    have "last (trim content) \<noteq> LF" using tt(2) by auto
    from last_line_nonempty[OF t this] have l: "last (b # rest) \<noteq> []" using ls by simp
    have "last (b # rest) \<in> set (b # rest)" by (rule last_in_set) simp
    with l have "filter (\<lambda>l. l \<noteq> []) (b # rest) \<noteq> []"
      by (simp only: filter_empty_conv) blast
    then have "1 \<le> length (filter (\<lambda>l. l \<noteq> []) (b # rest))"
      by (cases "filter (\<lambda>l. l \<noteq> []) (b # rest)") simp_all
    then have "2 \<le> length (nonEmptyLines content)"
      unfolding nonEmptyLines_def ls using a by simp
    with few show False by simp
  qed
qed

lemma hd_firstOf_consHead: "hd (firstOf (consHead c ls)) = c"
  by (cases ls) simp_all

lemma hd_first_line:
  assumes "s \<noteq> []" and "\<not> isSpace (hd s)"
  shows "hd (firstOf (split_lines s)) = hd s"
proof (cases s rule: split_lines.cases)
  case 1
  with assms show ?thesis by simp
next
  case (2 c)
  with assms have "c \<noteq> LF" by auto
  with 2 show ?thesis by simp
next
  case (3 c d cs)
  with assms have "c \<noteq> LF" and "c \<noteq> CR" by auto
  with 3 show ?thesis by (simp add: hd_firstOf_consHead)
qed

lemma last_last_consHead:
  "ls \<noteq> [] \<Longrightarrow> last ls \<noteq> [] \<Longrightarrow> last (last (consHead c ls)) = last (last ls)"
  by (cases ls) auto

lemma last_last_line:
  "s \<noteq> [] \<Longrightarrow> last s \<noteq> LF \<Longrightarrow> last (last (split_lines s)) = last s"
proof (induction s rule: split_lines.induct)
  case 1
  then show ?case by simp
next
  case (2 c)
  then show ?case by simp
next
  case (3 c d cs)
  show ?case
  proof (cases "c = LF")
    case True
    with 3 show ?thesis by (simp add: split_lines_nonempty)
  next
    case notLF: False
    show ?thesis
    proof (cases "c = CR \<and> d = LF")
      case True
      with "3.prems" have "cs \<noteq> []" by auto
      with True notLF 3 show ?thesis by (simp add: split_lines_nonempty)
    next
      case False
      have ih: "last (last (split_lines (d # cs))) = last (d # cs)"
        using "3.IH"(3)[OF notLF False] "3.prems" by simp
      have ne: "last (split_lines (d # cs)) \<noteq> []"
        using last_line_nonempty[of "d # cs"] "3.prems" by simp
      have "split_lines (c # d # cs) = consHead c (split_lines (d # cs))"
        using notLF False by auto
      then have "last (last (split_lines (c # d # cs))) = last (last (split_lines (d # cs)))"
        using last_last_consHead[OF split_lines_nonempty ne] by simp
      with ih show ?thesis by simp
    qed
  qed
qed

lemma not_blank_if_hd: "l \<noteq> [] \<Longrightarrow> \<not> isSpace (hd l) \<Longrightarrow> trim l \<noteq> []"
  unfolding trim_empty_iff by (cases l) auto

lemma not_blank_if_last: "l \<noteq> [] \<Longrightarrow> \<not> isSpace (last l) \<Longrightarrow> trim l \<noteq> []"
  unfolding trim_empty_iff using last_in_set by blast

lemma two_at_the_ends:
  assumes "P a" and "P (last (b # rest))"
  shows "2 \<le> length (filter P (a # b # rest))"
proof -
  have "last (b # rest) \<in> set (b # rest)" by (rule last_in_set) simp
  with assms(2) have "filter P (b # rest) \<noteq> []"
    by (simp only: filter_empty_conv) blast
  then have "1 \<le> length (filter P (b # rest))"
    by (cases "filter P (b # rest)") simp_all
  with assms(1) show ?thesis by simp
qed

lemma two_lines_blank_iff:
  "length (filter (\<lambda>l. trim l \<noteq> []) (split_lines (trim content))) < 2
     \<longleftrightarrow> length (nonEmptyLines content) < 2"
proof (cases "trim content = []")
  case True
  then show ?thesis by (simp add: nonEmptyLines_def)
next
  case t: False
  have tt: "\<not> isSpace (hd (trim content))" "\<not> isSpace (last (trim content))"
    using tight_trim[of content] t by (auto simp: tight_def)
  have nl: "last (trim content) \<noteq> LF" using tt(2) by auto
  have "length (filter (\<lambda>l. trim l \<noteq> []) (split_lines (trim content))) < 2
          \<longleftrightarrow> length (split_lines (trim content)) < 2"
  proof
    assume "length (split_lines (trim content)) < 2"
    moreover have "length (filter (\<lambda>l. trim l \<noteq> []) (split_lines (trim content)))
                     \<le> length (split_lines (trim content))"
      by (rule length_filter_le)
    ultimately show "length (filter (\<lambda>l. trim l \<noteq> []) (split_lines (trim content))) < 2"
      by linarith
  next
    assume few: "length (filter (\<lambda>l. trim l \<noteq> []) (split_lines (trim content))) < 2"
    show "length (split_lines (trim content)) < 2"
    proof (rule ccontr)
      assume "\<not> length (split_lines (trim content)) < 2"
      then have "2 \<le> length (split_lines (trim content))" by simp
      then obtain a b rest where ls: "split_lines (trim content) = a # b # rest"
        by (metis Suc_le_length_iff numeral_2_eq_2)
      have "a \<noteq> []" and "hd a = hd (trim content)"
        using first_line_nonempty[OF t tt(1)] hd_first_line[OF t tt(1)] ls by simp_all
      then have pa: "trim a \<noteq> []" using tt(1) by (intro not_blank_if_hd) simp_all
      have "last (b # rest) \<noteq> []" and "last (last (b # rest)) = last (trim content)"
        using last_line_nonempty[OF t nl] last_last_line[OF t nl] ls by simp_all
      then have pb: "trim (last (b # rest)) \<noteq> []"
        using tt(2) by (intro not_blank_if_last) simp_all
      have "2 \<le> length (filter (\<lambda>l. trim l \<noteq> []) (a # b # rest))"
        using pa pb by (intro two_at_the_ends)
      with few ls show False by simp
    qed
  qed
  then show ?thesis using two_lines_iff[OF t] by simp
qed

section \<open>The outcome of parseFile\<close>

lemma parseFile_unfold:
  "parseFile sel content filename =
     (if trim content = [] then Inl EmptyFile
      else if length (split_lines (trim content)) < 2 then Inl HeaderAndDataRequired
      else if [] \<in> set (map trim (split_char (getDelimiter sel content filename)
                                  (firstOf (split_lines (trim content)))))
           then Inl EmptyHeader
      else if parseLines (getDelimiter sel content filename)
                (map trim (split_char (getDelimiter sel content filename)
                                  (firstOf (split_lines (trim content)))))
                (tl (split_lines (trim content))) = []
           then Inl NoDataRows
      else Inr \<lparr>headers = map trim (split_char (getDelimiter sel content filename)
                                  (firstOf (split_lines (trim content)))),
                rows = parseLines (getDelimiter sel content filename)
                (map trim (split_char (getDelimiter sel content filename)
                                  (firstOf (split_lines (trim content)))))
                (tl (split_lines (trim content))),
                delimiter = getDelimiterName (getDelimiter sel content filename)\<rparr>)"
proof -
  have "content = [] \<Longrightarrow> trim content = []" by simp
  then have e: "(content = [] \<or> trim content = []) = (trim content = [])" by blast
  have m: "(\<exists>header \<in> set hs. header = []) = ([] \<in> set hs)" for hs :: "string list" by blast
  show ?thesis
    unfolding parseFile_def Let_def e m length_0_conv ..
qed

lemma parseFile_outcome:
  "parseFile sel content filename =
     (let d = getDelimiter sel content filename;
          hs = map trim (split_char d (firstOf (split_lines (trim content))));
          survivors = filter (survives d hs) (tl (split_lines (trim content)))
      in if \<forall>c \<in> set content. isSpace c then Inl EmptyFile
         else if length (nonEmptyLines content) < 2 then Inl HeaderAndDataRequired
         else if [] \<in> set hs then Inl EmptyHeader
         else if survivors = [] then Inl NoDataRows
         else Inr \<lparr>headers = hs, rows = map (rowOfLine d hs) survivors,
                   delimiter = getDelimiterName d\<rparr>)"
proof -
  define d where "d = getDelimiter sel content filename"
  define hs where "hs = map trim (split_char d (firstOf (split_lines (trim content))))"
  define survivors where "survivors = filter (survives d hs) (tl (split_lines (trim content)))"
  define blank where "blank = (\<forall>c \<in> set content. isSpace c)"
  define few where "few = (length (nonEmptyLines content) < 2)"
  have b: "trim content = [] \<longleftrightarrow> blank"
    unfolding blank_def by (rule trim_empty_iff)
  have f: "\<not> blank \<Longrightarrow> length (split_lines (trim content)) < 2 \<longleftrightarrow> few"
    unfolding few_def using two_lines_iff[of content] b by simp
  have s: "parseLines d hs (tl (split_lines (trim content))) = [] \<longleftrightarrow> survivors = []"
    unfolding survivors_def parseLines_survivors by simp
  have r: "parseLines d hs (tl (split_lines (trim content))) = map (rowOfLine d hs) survivors"
    unfolding survivors_def by (rule parseLines_survivors)
  have "parseFile sel content filename =
     (if blank then Inl EmptyFile
      else if few then Inl HeaderAndDataRequired
      else if [] \<in> set hs then Inl EmptyHeader
      else if survivors = [] then Inl NoDataRows
      else Inr \<lparr>headers = hs, rows = map (rowOfLine d hs) survivors,
                delimiter = getDelimiterName d\<rparr>)"
  proof (cases blank)
    case True
    then show ?thesis
      unfolding parseFile_unfold using b by simp
  next
    case False
    then have nb: "trim content \<noteq> []" using b by simp
    show ?thesis
      unfolding parseFile_unfold d_def[symmetric] hs_def[symmetric] s r
      using False nb f by simp
  qed
  then show ?thesis
    unfolding Let_def d_def[symmetric] hs_def[symmetric] survivors_def[symmetric]
      blank_def[symmetric] few_def[symmetric] .
qed

lemma parseFile_Inr:
  assumes "parseFile sel content filename = Inr ds"
  shows "headers ds = map trim (split_char (getDelimiter sel content filename)
                                  (firstOf (split_lines (trim content))))"
    and "rows ds = map (rowOfLine (getDelimiter sel content filename) (headers ds))
                     (filter (survives (getDelimiter sel content filename) (headers ds))
                        (tl (split_lines (trim content))))"
    and "rows ds \<noteq> []"
    and "[] \<notin> set (headers ds)"
    and "delimiter ds = getDelimiterName (getDelimiter sel content filename)"
proof -
  define d where "d = getDelimiter sel content filename"
  define hs where "hs = map trim (split_char d (firstOf (split_lines (trim content))))"
  define survivors where "survivors = filter (survives d hs) (tl (split_lines (trim content)))"
  note o = parseFile_outcome[of sel content filename, unfolded Let_def,
      folded d_def, folded hs_def, folded survivors_def]
  from assms o have ds: "ds = \<lparr>headers = hs, rows = map (rowOfLine d hs) survivors,
                   delimiter = getDelimiterName d\<rparr>"
    and ne: "[] \<notin> set hs" and sv: "survivors \<noteq> []"
    by (auto split: if_splits)
  show "headers ds = map trim (split_char (getDelimiter sel content filename)
                                  (firstOf (split_lines (trim content))))"
    unfolding ds hs_def d_def by simp
  show "rows ds = map (rowOfLine (getDelimiter sel content filename) (headers ds))
                     (filter (survives (getDelimiter sel content filename) (headers ds))
                        (tl (split_lines (trim content))))"
    unfolding ds survivors_def d_def by simp
  show "rows ds \<noteq> []" unfolding ds using sv by simp
  show "[] \<notin> set (headers ds)" unfolding ds using ne by simp
  show "delimiter ds = getDelimiterName (getDelimiter sel content filename)"
    unfolding ds d_def by simp
qed

lemma lastOccurrence_distinct: "distinct hs \<Longrightarrow> i < length hs \<Longrightarrow> lastOccurrence hs i"
  unfolding lastOccurrence_def by (auto simp: nth_eq_iff_index_eq)

lemma rowOfLine_props:
  "distinct (map fst (rowOfLine d hs l))"
  "fst ` set (rowOfLine d hs l) = set hs - {''__proto__''}"
  "trimmedRow (rowOfLine d hs l)"
  unfolding rowOfLine_def
  by (rule distinct_buildRow, rule set_keys_buildRow, rule trimmedRow_buildRow)

lemma row_has_header:
  assumes "h \<in> set hs" and "h \<noteq> ''__proto__''"
  shows "\<exists>v. map_of (rowOfLine d hs l) h = Some v \<and> trim v = v"
proof -
  have "h \<in> fst ` set (rowOfLine d hs l)" using assms rowOfLine_props(2) by simp
  then obtain v where "(h, v) \<in> set (rowOfLine d hs l)" by auto
  then have "map_of (rowOfLine d hs l) h = Some v" and "trim v = v"
    using rowOfLine_props(1,3)[of d hs l] unfolding trimmedRow_def by auto
  then show ?thesis by blast
qed

section \<open>The choice of the delimiter\<close>

lemma length_priority: "length priority = 4"
  by (simp add: priority_def)

lemma endsWith_exclusive: "endsWith s ''.csv'' \<Longrightarrow> \<not> endsWith s ''.tsv''"
  by (auto simp: endsWith_def)

text \<open>The choice by count: the first character of \<open>priority\<close> that reaches the highest
  count.\<close>

lemma choose_by_count:
  fixes cnt :: "char \<Rightarrow> nat"
  defines "M \<equiv> Max (set (map cnt priority))"
  defines "d \<equiv> (if M = 0 then TAB
                  else (case find (\<lambda>d. cnt d = M) priority of Some d \<Rightarrow> d | None \<Rightarrow> TAB))"
  shows "\<exists>i < 4. d = priority ! i \<and> (\<forall>j < 4. cnt (priority ! j) \<le> cnt d)
            \<and> (\<forall>j < i. cnt (priority ! j) < cnt d)"
proof -
  have fin: "finite (set (map cnt priority))" and ne: "set (map cnt priority) \<noteq> {}"
    by (simp_all add: priority_def)
  have ge: "cnt (priority ! j) \<le> M" if "j < 4" for j
  proof -
    have "cnt (priority ! j) \<in> set (map cnt priority)"
      using that by (simp add: length_priority)
    then show ?thesis unfolding M_def using fin by (simp only: Max_ge)
  qed
  have "M \<in> set (map cnt priority)" unfolding M_def using fin ne by (rule Max_in)
  then obtain x where x: "x \<in> set priority" "cnt x = M" by auto
  show ?thesis
  proof (cases "M = 0")
    case True
    have dT: "d = priority ! 0" using True by (simp add: d_def priority_def)
    have "cnt d = 0" using ge[of 0] True dT by simp
    then have "\<forall>j < 4. cnt (priority ! j) \<le> cnt d" using ge True by simp
    with dT show ?thesis by (intro exI[of _ 0]) simp
  next
    case False
    from x have "find (\<lambda>d. cnt d = M) priority \<noteq> None"
      by (auto simp: find_None_iff)
    then obtain y where f: "find (\<lambda>d. cnt d = M) priority = Some y" by auto
    then obtain i where i: "i < length priority" "cnt (priority ! i) = M" "y = priority ! i"
      "\<forall>j < i. cnt (priority ! j) \<noteq> M"
      unfolding find_Some_iff by blast
    have dy: "d = priority ! i" using False f i(3) by (simp add: d_def)
    have i4: "i < 4" using i(1) by (simp add: length_priority)
    have cd: "cnt d = M" using dy i(2) by simp
    have "\<forall>j < i. cnt (priority ! j) < cnt d"
    proof (intro allI impI)
      fix j assume "j < i"
      then have "cnt (priority ! j) \<noteq> M" and "cnt (priority ! j) \<le> M"
        using i(4) ge[of j] i4 by auto
      then show "cnt (priority ! j) < cnt d" unfolding cd by simp
    qed
    moreover have "\<forall>j < 4. cnt (priority ! j) \<le> cnt d" using ge cd by simp
    ultimately show ?thesis using dy i4 by blast
  qed
qed

lemma getDelimiter_auto:
  assumes "sel = None \<or> sel = Some ''auto''"
  shows "getDelimiter sel content filename =
     (if endsWith (toLowerCase filename) ''.csv'' then CHR '',''
      else if endsWith (toLowerCase filename) ''.tsv'' then TAB
      else if Max (set (map (\<lambda>d. countChar d (firstOf (split_lines content))) priority)) = 0 then TAB
      else (case find (\<lambda>d. countChar d (firstOf (split_lines content))
                = Max (set (map (\<lambda>d. countChar d (firstOf (split_lines content))) priority))) priority of
               Some d \<Rightarrow> d | None \<Rightarrow> TAB))"
  using assms by (auto simp: getDelimiter_def Let_def)

section \<open>Line breaks\<close>

lemma crlf_append: "crlf (xs @ ys) = crlf xs @ crlf ys"
  by (induction xs) auto

lemma crlf_spaces: "\<forall>c \<in> set s. isSpace c \<Longrightarrow> \<forall>c \<in> set (crlf s). isSpace c"
  by (induction s) auto

lemma crlf_Nil_iff: "crlf s = [] \<longleftrightarrow> s = []"
  by (cases s) auto

lemma hd_crlf: "s \<noteq> [] \<Longrightarrow> hd s \<noteq> LF \<Longrightarrow> hd (crlf s) = hd s"
  by (cases s) auto

lemma last_crlf: "s \<noteq> [] \<Longrightarrow> last (crlf s) = last s"
  by (induction s) (auto simp: crlf_Nil_iff)

lemma tight_crlf: "tight t \<Longrightarrow> tight (crlf t)"
proof (cases "t = []")
  case True
  then show ?thesis by (simp add: tight_def)
next
  case False
  assume "tight t"
  with False have h: "\<not> isSpace (hd t)" and l: "\<not> isSpace (last t)" by (auto simp: tight_def)
  from h have "hd t \<noteq> LF" by auto
  then have "hd (crlf t) = hd t" using False by (simp add: hd_crlf)
  moreover have "last (crlf t) = last t" using False by (rule last_crlf)
  ultimately show ?thesis using h l by (simp add: tight_def)
qed

lemma trim_crlf: "trim (crlf s) = crlf (trim s)"
proof -
  obtain a b where s: "s = a @ trim s @ b" and a: "\<forall>c \<in> set a. isSpace c"
    and b: "\<forall>c \<in> set b. isSpace c"
    using trim_decompose by blast
  have "crlf s = crlf a @ crlf (trim s) @ crlf b"
    using s by (metis crlf_append)
  moreover have "trim (crlf a @ crlf (trim s) @ crlf b) = crlf (trim s)"
    using a b by (intro trim_sandwich crlf_spaces tight_crlf tight_trim)
  ultimately show ?thesis by simp
qed

lemma alike_refl: "alike l l"
  by (simp add: alike_def)

lemma alike_Cons: "alike l l' \<Longrightarrow> alike (c # l) (c # l')"
  by (auto simp: alike_def)

lemma alike_consHead:
  "list_all2 alike ls ls' \<Longrightarrow> list_all2 alike (consHead c ls) (consHead c ls')"
  by (cases ls; cases ls') (auto simp: alike_Cons alike_refl)

lemma split_lines_LF: "split_lines (LF # s) = [] # split_lines s"
  by (cases s) simp_all

lemma split_lines_CRLF: "split_lines (CR # LF # s) = [] # split_lines s"
  by simp

lemma split_lines_plain:
  "c \<noteq> LF \<Longrightarrow> s \<noteq> [] \<Longrightarrow> \<not> (c = CR \<and> hd s = LF) \<Longrightarrow>
   split_lines (c # s) = consHead c (split_lines s)"
  by (cases s) auto

lemma split_lines_crlf: "list_all2 alike (split_lines s) (split_lines (crlf s))"
proof (induction s rule: split_lines.induct)
  case 1
  then show ?case by (simp add: alike_refl)
next
  case (2 c)
  then show ?case by (simp add: alike_refl)
next
  case (3 c d cs)
  show ?case
  proof (cases "c = LF")
    case True
    have "split_lines (c # d # cs) = [] # split_lines (d # cs)" using True by simp
    moreover have "crlf (c # d # cs) = CR # LF # crlf (d # cs)"
      using True by simp
    then have "split_lines (crlf (c # d # cs)) = [] # split_lines (crlf (d # cs))"
      by (simp only: split_lines_CRLF)
    ultimately show ?thesis using "3.IH"(1)[OF True] by (simp add: alike_refl)
  next
    case notLF: False
    show ?thesis
    proof (cases "c = CR \<and> d = LF")
      case True
      have l: "split_lines (c # d # cs) = [] # split_lines cs" using True by simp
      have "crlf (c # d # cs) = CR # CR # LF # crlf cs" using True by simp
      moreover have "split_lines (CR # CR # LF # crlf cs)
                       = consHead CR (split_lines (CR # LF # crlf cs))"
        by (rule split_lines_plain) simp_all
      ultimately have r: "split_lines (crlf (c # d # cs)) = [CR] # split_lines (crlf cs)"
        by (simp only: split_lines_CRLF consHead.simps)
      have "alike [] [CR]" by (simp add: alike_def)
      then show ?thesis unfolding l r using "3.IH"(2)[OF notLF True] by simp
    next
      case False
      have l: "split_lines (c # d # cs) = consHead c (split_lines (d # cs))"
        using notLF False by auto
      have ne: "crlf (d # cs) \<noteq> []" by (simp add: crlf_Nil_iff)
      have hd: "hd (crlf (d # cs)) \<noteq> LF" by simp
      have "crlf (c # d # cs) = c # crlf (d # cs)" using notLF by simp
      moreover have "split_lines (c # crlf (d # cs)) = consHead c (split_lines (crlf (d # cs)))"
        using notLF ne hd by (intro split_lines_plain) auto
      ultimately have r: "split_lines (crlf (c # d # cs)) = consHead c (split_lines (crlf (d # cs)))"
        by (simp only:)
      show ?thesis unfolding l r
        by (rule alike_consHead) (rule "3.IH"(3)[OF notLF False])
    qed
  qed
qed

lemma trim_alike: "alike l l' \<Longrightarrow> trim l' = trim l"
  by (auto simp: alike_def trim_snoc_space)

lemma countChar_alike: "alike l l' \<Longrightarrow> d \<noteq> CR \<Longrightarrow> countChar d l' = countChar d l"
  by (auto simp: alike_def countChar_def)

lemma firstOf_alike: "list_all2 alike ls ls' \<Longrightarrow> alike (firstOf ls) (firstOf ls')"
  by (cases ls; cases ls') (auto simp: alike_refl)

lemma tl_alike: "list_all2 alike ls ls' \<Longrightarrow> list_all2 alike (tl ls) (tl ls')"
  by (cases ls; cases ls') auto

lemma map_trim_alike: "list_all2 alike ls ls' \<Longrightarrow> map trim ls' = map trim ls"
  by (induction ls ls' rule: list_all2_induct) (auto simp: trim_alike)

lemma parseLines_trim: "parseLines d hs ls = parseLines d hs (map trim ls)"
  by (induction ls) (simp_all add: Let_def trim_idem)

lemma parseLines_alike:
  "list_all2 alike ls ls' \<Longrightarrow> parseLines d hs ls' = parseLines d hs ls"
  using parseLines_trim[of d hs ls] parseLines_trim[of d hs ls'] by (simp add: map_trim_alike)

lemma consHead_snocLast:
  "ls \<noteq> [] \<Longrightarrow> consHead x (snocLast ls c) = snocLast (consHead x ls) c"
  by (cases ls; cases "tl ls") (auto simp: snocLast_def)

lemma split_char_snoc:
  "c \<noteq> d \<Longrightarrow> split_char d (l @ [c]) = snocLast (split_char d l) c"
proof (induction l)
  case Nil
  then show ?case by (simp add: snocLast_def)
next
  case (Cons x xs)
  show ?case
  proof (cases "x = d")
    case True
    then show ?thesis using Cons by (simp add: snocLast_def split_char_nonempty)
  next
    case False
    then show ?thesis using Cons by (simp add: consHead_snocLast split_char_nonempty)
  qed
qed

lemma map_trim_snocLast:
  assumes "ls \<noteq> []" and "isSpace c"
  shows "map trim (snocLast ls c) = map trim ls"
proof -
  have "map trim (snocLast ls c) = map trim (butlast ls) @ [trim (last ls)]"
    using assms(2) by (simp add: snocLast_def trim_snoc_space)
  also have "\<dots> = map trim (butlast ls @ [last ls])" by simp
  also have "\<dots> = map trim ls" using assms(1) by simp
  finally show ?thesis .
qed

lemma headers_alike:
  assumes "alike l l'" and "d \<noteq> CR"
  shows "map trim (split_char d l') = map trim (split_char d l)"
proof (cases "l' = l")
  case True
  then show ?thesis by simp
next
  case False
  with assms(1) have "l' = l @ [CR]" by (simp add: alike_def)
  then show ?thesis
    using assms(2) by (simp add: split_char_snoc map_trim_snocLast split_char_nonempty)
qed

lemma getDelimiter_priority: "getDelimiter sel content filename \<in> set priority"
proof (cases "sel = None \<or> sel = Some ''auto''")
  case True
  let ?cnt = "\<lambda>d. countChar d (firstOf (split_lines content))"
  have "(case find (\<lambda>d. ?cnt d = M) priority of Some d \<Rightarrow> d | None \<Rightarrow> TAB) \<in> set priority" for M
  proof (cases "find (\<lambda>d. ?cnt d = M) priority")
    case None
    then show ?thesis by (simp add: priority_def)
  next
    case (Some x)
    then have "x \<in> set priority" unfolding find_Some_iff by auto
    with Some show ?thesis by simp
  qed
  moreover have "TAB \<in> set priority" "CHR '','' \<in> set priority" by (simp_all add: priority_def)
  ultimately show ?thesis unfolding getDelimiter_auto[OF True] by presburger
next
  case False
  then obtain v where v: "sel = Some v" "v \<noteq> ''auto''" by (cases sel) auto
  have "(case delimiterMap v of Some d \<Rightarrow> d | None \<Rightarrow> TAB) \<in> set priority"
    by (auto simp: delimiterMap_def priority_def)
  then show ?thesis by (simp add: getDelimiter_def v)
qed

lemma getDelimiter_not_CR: "getDelimiter sel content filename \<noteq> CR"
  using getDelimiter_priority[of sel content filename] by (auto simp: priority_def)

lemma getDelimiter_first_line:
  assumes "alike (firstOf (split_lines content)) (firstOf (split_lines content'))"
  shows "getDelimiter sel content' filename = getDelimiter sel content filename"
proof -
  have "countChar d (firstOf (split_lines content')) = countChar d (firstOf (split_lines content))"
    if "d \<in> set priority" for d
    using that by (intro countChar_alike[OF assms]) (auto simp: priority_def)
  then have c: "countChar TAB (firstOf (split_lines content')) = countChar TAB (firstOf (split_lines content))"
    "countChar (CHR '','') (firstOf (split_lines content')) = countChar (CHR '','') (firstOf (split_lines content))"
    "countChar (CHR '';'') (firstOf (split_lines content')) = countChar (CHR '';'') (firstOf (split_lines content))"
    "countChar (CHR ''|'') (firstOf (split_lines content')) = countChar (CHR ''|'') (firstOf (split_lines content))"
    by (simp_all add: priority_def)
  show ?thesis
    unfolding getDelimiter_def Let_def priority_def list.map find.simps c ..
qed

section \<open>Keys, entries and identical inputs\<close>

text \<open>A key is usable exactly when it is not blank.\<close>

lemma usableKey_iff: "usableKey (map_of row kc) \<longleftrightarrow> \<not> blankKey kc row"
  by (auto simp: usableKey_def blankKey_def split: option.splits)

lemma usableKey_Some: "usableKey (Some k) \<longleftrightarrow> trim k \<noteq> []"
  by (auto simp: usableKey_def)

lemma indexOf_last_wins:
  assumes "map_of row kc = Some k" and "trim k \<noteq> []"
    and "\<forall>y \<in> set ys. map_of y kc \<noteq> Some k"
  shows "map_of (indexOf kc (xs @ row # ys) m) k = Some row"
proof -
  have u: "usableKey (Some k)" using assms(2) by (simp add: usableKey_Some)
  have "map_of (indexOf kc (xs @ row # ys) m) k
          = map_of (indexOf kc (row # ys) (indexOf kc xs m)) k"
    by (simp add: indexOf_append)
  also have "\<dots> = map_of (indexOf kc ys (upsert (indexOf kc xs m) k row)) k"
    using assms(1) u by simp
  also have "\<dots> = map_of (upsert (indexOf kc xs m) k row) k"
    by (rule map_of_indexOf_other[OF assms(3)])
  also have "\<dots> = Some row"
    by (simp add: map_of_upsert)
  finally show ?thesis .
qed

lemma comparisonOf_lists:
  "added (comparisonOf f1 f2 kc)
     = addedPass (indexOf kc (rows f1) []) (indexOf kc (rows f2) [])"
  "removed (comparisonOf f1 f2 kc)
     = removedPass (indexOf kc (rows f1) []) (indexOf kc (rows f2) [])"
  "changed (comparisonOf f1 f2 kc)
     = fst (bothPass (indexOf kc (rows f1) []) (indexOf kc (rows f2) []))"
  "unchanged (comparisonOf f1 f2 kc)
     = snd (bothPass (indexOf kc (rows f1) []) (indexOf kc (rows f2) []))"
  by (simp_all add: comparisonOf_def Let_def split: prod.splits)

lemma entry_keys_in_index:
  assumes "e \<in> set (addedPass m1 m2 @ removedPass m1 m2
             @ fst (bothPass m1 m2) @ snd (bothPass m1 m2))"
  shows "entryKey e \<in> set (map fst m1) \<union> set (map fst m2)"
proof -
  have "entryKey e \<in> set (map entryKey (addedPass m1 m2)) \<union> set (map entryKey (removedPass m1 m2))
          \<union> set (map entryKey (fst (bothPass m1 m2))) \<union> set (map entryKey (snd (bothPass m1 m2)))"
    using assms by auto
  then show ?thesis
    unfolding keys_addedPass keys_removedPass keys_bothPass_fst keys_bothPass_snd
    by auto
qed

lemma index_keys_usable:
  "k \<in> set (map fst (indexOf kc rs [])) \<Longrightarrow> trim k \<noteq> []"
proof -
  assume "k \<in> set (map fst (indexOf kc rs []))"
  then obtain row where "(k, row) \<in> set (indexOf kc rs [])" by auto
  from indexOf_entries[OF this] show ?thesis by (simp add: usableKey_Some)
qed

lemma map_of_tabulate:
  "c \<in> set cs \<Longrightarrow> map_of (map (\<lambda>c. (c, f c)) cs) c = Some (f c)"
  by (induction cs) auto

lemma keys_tabulate: "map fst (map (\<lambda>c. (c, f c)) cs) = cs"
  by (induction cs) auto

lemma valueOr_trimmed: "trimmedRow row \<Longrightarrow> trim (valueOr row c) = valueOr row c"
proof (cases "map_of row c")
  case None
  then show ?thesis by (simp add: valueOr_def)
next
  case (Some v)
  assume "trimmedRow row"
  moreover from Some have "(c, v) \<in> set row" by (rule map_of_SomeD)
  ultimately have "trim v = v" unfolding trimmedRow_def by blast
  with Some show ?thesis by (simp add: valueOr_def)
qed

lemma differing_columns:
  "set (filter (differs r1 r2) (allColumns r1 r2))
     = {c \<in> fst ` set r1 \<union> fst ` set r2. trim (valueOr r1 c) \<noteq> trim (valueOr r2 c)}"
  by (auto simp: set_allColumns differs_def)

lemma isChanged_iff:
  "isChanged r1 r2 \<longleftrightarrow>
     {c \<in> fst ` set r1 \<union> fst ` set r2. trim (valueOr r1 c) \<noteq> trim (valueOr r2 c)} \<noteq> {}"
  unfolding isChanged_def differs_def by blast

lemma changed_entry_present:
  assumes "(k, r1) \<in> set m1" and "map_of m2 k = Some r2" and "isChanged r1 r2"
  shows "Changed k r1 r2 (fst (rowDiff r1 r2)) \<in> set (fst (bothPass m1 m2))"
  using assms unfolding bothPass_fst by force

lemma unchanged_entry_present:
  assumes "(k, r1) \<in> set m1" and "map_of m2 k = Some r2" and "\<not> isChanged r1 r2"
  shows "Unchanged k r1 \<in> set (snd (bothPass m1 m2))"
  using assms unfolding bothPass_snd by force

lemma not_in_unchanged:
  assumes d1: "distinct (map fst m1)"
    and "map_of m1 k = Some r1" and "map_of m2 k = Some r2" and "isChanged r1 r2"
  shows "k \<notin> entryKey ` set (snd (bothPass m1 m2))"
proof -
  have "k \<notin> set (map fst (filter (bothSame m2) m1))"
    unfolding mem_keys_filter[OF d1] using assms(2-4) by (simp add: bothSame_def)
  then show ?thesis
    unfolding keys_bothPass_snd[symmetric] by simp
qed

lemma not_in_changed:
  assumes d1: "distinct (map fst m1)"
    and "map_of m1 k = Some r1" and "map_of m2 k = Some r2" and "\<not> isChanged r1 r2"
  shows "k \<notin> entryKey ` set (fst (bothPass m1 m2))"
proof -
  have "k \<notin> set (map fst (filter (bothChanged m2) m1))"
    unfolding mem_keys_filter[OF d1] using assms(2-4) by (simp add: bothChanged_def)
  then show ?thesis
    unfolding keys_bothPass_fst[symmetric] by simp
qed

lemma differs_self: "\<not> differs r r c"
  by (simp add: differs_def)

lemma isChanged_self: "\<not> isChanged r r"
  by (simp add: isChanged_def differs_self)

lemma addedPass_covered:
  "\<forall>(k, r) \<in> set m2. map_of m1 k \<noteq> None \<Longrightarrow> addedPass m1 m2 = []"
  by (induction m2) auto

lemma removedPass_covered:
  "\<forall>(k, r) \<in> set m1. map_of m2 k \<noteq> None \<Longrightarrow> removedPass m1 m2 = []"
  by (induction m1) auto

lemma rowDiff_self: "snd (rowDiff r r) = False"
  by (simp add: hasChanges_iff isChanged_self)

lemma bothPass_same:
  "\<forall>(k, r) \<in> set xs. map_of m k = Some r \<Longrightarrow>
   bothPass xs m = ([], map (\<lambda>(k, r). Unchanged k r) xs)"
proof (induction xs)
  case Nil
  then show ?case by simp
next
  case (Cons x xs)
  obtain k r where x: "x = (k, r)" by (cases x)
  have look: "map_of m k = Some r" using Cons.prems x by simp
  have rest: "bothPass xs m = ([], map (\<lambda>(k, r). Unchanged k r) xs)"
    using Cons by simp
  obtain ds where cr: "rowDiff r r = (ds, False)"
    using rowDiff_self[of r] by (cases "rowDiff r r") simp
  show ?case by (simp add: x look rest cr)
qed

lemma length_filter_eq_iff: "length (filter P xs) = length xs \<longleftrightarrow> (\<forall>x \<in> set xs. P x)"
proof (induction xs)
  case Nil
  then show ?case by simp
next
  case (Cons x xs)
  have "length (filter P xs) \<le> length xs" by (rule length_filter_le)
  then have "length (filter P xs) \<noteq> Suc (length xs)" by linarith
  with Cons show ?case by auto
qed

lemma length_index:
  "length (indexOf kc rs []) = card (set (rowKeys kc rs))"
proof -
  have "length (indexOf kc rs []) = length (map fst (indexOf kc rs []))" by simp
  also have "\<dots> = card (set (rowKeys kc rs))"
    unfolding keys_indexOf using length_newSet[of "[]" "rowKeys kc rs"] by simp
  finally show ?thesis .
qed

lemma index_full_iff:
  "length (indexOf kc rs []) = length rs \<longleftrightarrow>
     (\<forall>row \<in> set rs. \<not> blankKey kc row) \<and> distinct (rowKeys kc rs)"
proof -
  let ?ks = "rowKeys kc rs"
  have len_ks: "length ?ks = length (filter (\<lambda>row. usableKey (map_of row kc)) rs)"
    by (simp add: rowKeys_def)
  have le1: "card (set ?ks) \<le> length ?ks" by (rule card_length)
  have le2: "length ?ks \<le> length rs" unfolding len_ks by (rule length_filter_le)
  have eq1: "card (set ?ks) = length ?ks \<longleftrightarrow> distinct ?ks"
    by (metis card_distinct distinct_card)
  have eq2: "length ?ks = length rs \<longleftrightarrow> (\<forall>row \<in> set rs. \<not> blankKey kc row)"
    unfolding len_ks length_filter_eq_iff by (simp add: usableKey_iff)
  have "length (indexOf kc rs []) = length rs \<longleftrightarrow> card (set ?ks) = length ?ks \<and> length ?ks = length rs"
    unfolding length_index using le1 le2 by linarith
  then show ?thesis unfolding eq1 eq2 by blast
qed

section \<open>The script and the computation on own values\<close>

text \<open>Each function of the comparison throws \<open>TypeError\<close> exactly when a read meets an
  inherited member, and returns what the computation on own values gives otherwise.\<close>

lemma getProp_Some: "map_of row c = Some v \<Longrightarrow> getProp row c = Str v"
  by (simp add: getProp_def)

lemma getProp_Str_iff: "getProp row c = Str v \<longleftrightarrow> map_of row c = Some v"
  by (auto simp: getProp_def split: option.splits)

lemma getProp_Inherited_iff:
  "getProp row c = Inherited \<longleftrightarrow> map_of row c = None \<and> c \<in> set prototypeNames"
  by (auto simp: getProp_def split: option.splits)

lemma getProp_Undefined_iff:
  "getProp row c = Undefined \<longleftrightarrow> map_of row c = None \<and> c \<notin> set prototypeNames"
  by (auto simp: getProp_def split: option.splits)

lemma buildIndex_eq:
  "buildIndex kc rs m =
     (if \<exists>row \<in> set rs. getProp row kc = Inherited then Inl TypeError
      else Inr (indexOf kc rs m))"
proof (induction rs arbitrary: m)
  case Nil
  show ?case by simp
next
  case (Cons row rs)
  show ?case
  proof (cases "getProp row kc")
    case (Str key)
    then have "map_of row kc = Some key" by (simp add: getProp_Str_iff)
    with Str Cons.IH show ?thesis by (simp add: usableKey_def)
  next
    case Inherited
    then show ?thesis by simp
  next
    case Undefined
    then have "map_of row kc = None" by (simp add: getProp_Undefined_iff)
    with Undefined Cons.IH show ?thesis by simp
  qed
qed

lemma trimmedValue_eq:
  "trimmedValue row c =
     (if getProp row c = Inherited then Inl TypeError else Inr (trim (valueOr row c)))"
  by (auto simp: trimmedValue_def valueOr_def getProp_def split: option.splits)

lemma compareColumn_Inl: "compareColumn r1 r2 (Inl e) c = Inl e"
  by (simp add: compareColumn_def)

lemma compareColumn_Inr:
  "compareColumn r1 r2 (Inr st) c =
     (if getProp r1 c = Inherited \<or> getProp r2 c = Inherited then Inl TypeError
      else Inr (diffColumn r1 r2 st c))"
  by (simp add: compareColumn_def trimmedValue_eq diffColumn_def Let_def)

lemma foldl_compareColumn_Inl: "foldl (compareColumn r1 r2) (Inl e) cs = Inl e"
  by (induction cs) (simp_all add: compareColumn_Inl)

lemma foldl_compareColumn:
  "foldl (compareColumn r1 r2) (Inr st) cs =
     (if \<exists>c \<in> set cs. getProp r1 c = Inherited \<or> getProp r2 c = Inherited then Inl TypeError
      else Inr (foldl (diffColumn r1 r2) st cs))"
proof (induction cs arbitrary: st)
  case Nil
  show ?case by simp
next
  case (Cons c cs)
  show ?case
  proof (cases "getProp r1 c = Inherited \<or> getProp r2 c = Inherited")
    case True
    then show ?thesis by (auto simp: compareColumn_Inr foldl_compareColumn_Inl)
  next
    case False
    then show ?thesis using Cons.IH by (simp add: compareColumn_Inr)
  qed
qed

lemma compareRows_eq:
  "compareRows r1 r2 = (if inheritedRead r1 r2 then Inl TypeError else Inr (rowDiff r1 r2))"
  by (simp add: compareRows_def rowDiff_def inheritedRead_def allColumns_def Let_def
      foldl_compareColumn)

lemma changedPass_eq:
  "changedPass m1 m2 = (if passThrows m1 m2 then Inl TypeError else Inr (bothPass m1 m2))"
proof (induction m1)
  case Nil
  show ?case by (simp add: passThrows_def)
next
  case (Cons e m1)
  obtain key row1 where e: "e = (key, row1)" by (cases e)
  show ?case
  proof (cases "map_of m2 key")
    case None
    then show ?thesis using Cons.IH unfolding e
      by (simp add: passThrows_def split: prod.splits)
  next
    case (Some row2)
    then show ?thesis using Cons.IH unfolding e
      by (auto simp: passThrows_def compareRows_eq split: prod.splits)
  qed
qed

lemma performComparison_eq:
  "performComparison f1 f2 kc =
     (if (\<exists>row \<in> set (rows f1). getProp row kc = Inherited)
         \<or> (\<exists>row \<in> set (rows f2). getProp row kc = Inherited)
         \<or> passThrows (indexOf kc (rows f1) []) (indexOf kc (rows f2) [])
      then Inl TypeError else Inr (comparisonOf f1 f2 kc))"
  by (auto simp: performComparison_def buildIndex_eq changedPass_eq comparisonOf_def Let_def
      split: prod.splits)


lemma performComparison_Inr:
  assumes "performComparison f1 f2 kc = Inr r"
  shows "r = comparisonOf f1 f2 kc"
    and "buildIndex kc (rows f1) [] = Inr (indexOf kc (rows f1) [])"
    and "buildIndex kc (rows f2) [] = Inr (indexOf kc (rows f2) [])"
    and "changedPass (indexOf kc (rows f1) []) (indexOf kc (rows f2) [])
           = Inr (bothPass (indexOf kc (rows f1) []) (indexOf kc (rows f2) []))"
proof -
  from assms have n: "\<not> ((\<exists>row \<in> set (rows f1). getProp row kc = Inherited)
         \<or> (\<exists>row \<in> set (rows f2). getProp row kc = Inherited)
         \<or> passThrows (indexOf kc (rows f1) []) (indexOf kc (rows f2) []))"
    unfolding performComparison_eq by (auto split: if_splits)
  from assms n show "r = comparisonOf f1 f2 kc"
    unfolding performComparison_eq by (simp split: if_splits)
  from n show "buildIndex kc (rows f1) [] = Inr (indexOf kc (rows f1) [])"
    unfolding buildIndex_eq by simp
  from n show "buildIndex kc (rows f2) [] = Inr (indexOf kc (rows f2) [])"
    unfolding buildIndex_eq by simp
  from n show "changedPass (indexOf kc (rows f1) []) (indexOf kc (rows f2) [])
           = Inr (bothPass (indexOf kc (rows f1) []) (indexOf kc (rows f2) []))"
    unfolding changedPass_eq by simp
qed
section \<open>The earlier variant of parseFile\<close>

text \<open>Where the two variants part: an empty header field, and a file without a row that
  survives.\<close>

lemma parseFile_v0_differs:
  "parseFile_v0 None ''a,,b\<newline>1,2,3'' ''x.csv''
     = Inr \<lparr>headers = [''a'', [], ''b''],
             rows = [[(''a'', ''1''), ([], ''2''), (''b'', ''3'')]], delimiter = NameComma\<rparr>"
  "parseFile None ''a,,b\<newline>1,2,3'' ''x.csv'' = Inl EmptyHeader"
  "parseFile_v0 None ''a,b\<newline>,'' ''x.csv''
     = Inr \<lparr>headers = [''a'', ''b''], rows = [], delimiter = NameComma\<rparr>"
  "parseFile None ''a,b\<newline>,'' ''x.csv'' = Inl NoDataRows"
  by code_simp+

lemma firstOf_consHead_eq: "firstOf (consHead c ls) = c # firstOf ls"
  by (cases ls) simp_all

lemma first_line_alike: "alike (firstOf (split_lines s)) (firstOf (split_char LF s))"
proof (induction s rule: split_lines.induct)
  case 1
  then show ?case by (simp add: alike_refl)
next
  case (2 c)
  then show ?case by (simp add: alike_refl)
next
  case (3 c d cs)
  show ?case
  proof (cases "c = LF")
    case True
    then show ?thesis by (simp add: alike_refl)
  next
    case notLF: False
    show ?thesis
    proof (cases "c = CR \<and> d = LF")
      case True
      then show ?thesis by (simp add: alike_def)
    next
      case False
      have l: "split_lines (c # d # cs) = consHead c (split_lines (d # cs))"
        using notLF False by auto
      have r: "split_char LF (c # d # cs) = consHead c (split_char LF (d # cs))"
        using notLF by simp
      show ?thesis
        unfolding l r firstOf_consHead_eq
        by (rule alike_Cons) (rule "3.IH"(3)[OF notLF False])
    qed
  qed
qed

lemma getDelimiter_v0_eq:
  "getDelimiter_v0 sel content filename = getDelimiter sel content filename"
proof -
  have "countChar d (firstOf (split_char LF content)) = countChar d (firstOf (split_lines content))"
    if "d \<in> set priority" for d
    using that by (intro countChar_alike[OF first_line_alike]) (auto simp: priority_def)
  then have c: "countChar TAB (firstOf (split_char LF content)) = countChar TAB (firstOf (split_lines content))"
    "countChar (CHR '','') (firstOf (split_char LF content)) = countChar (CHR '','') (firstOf (split_lines content))"
    "countChar (CHR '';'') (firstOf (split_char LF content)) = countChar (CHR '';'') (firstOf (split_lines content))"
    "countChar (CHR ''|'') (firstOf (split_char LF content)) = countChar (CHR ''|'') (firstOf (split_lines content))"
    by (simp_all add: priority_def)
  show ?thesis
    unfolding getDelimiter_v0_def getDelimiter_def Let_def priority_def list.map find.simps c ..
qed

lemma split_LF_crlf: "list_all2 alike (split_char LF s) (split_char LF (crlf s))"
proof (induction s)
  case Nil
  then show ?case by (simp add: alike_refl)
next
  case (Cons c s)
  show ?case
  proof (cases "c = LF")
    case True
    have "split_char LF (crlf (c # s)) = [CR] # split_char LF (crlf s)"
      using True by simp
    moreover have "split_char LF (c # s) = [] # split_char LF s" using True by simp
    moreover have "alike [] [CR]" by (simp add: alike_def)
    ultimately show ?thesis using Cons by simp
  next
    case False
    then show ?thesis using Cons by (simp add: alike_consHead)
  qed
qed

lemma length_snocLast: "ls \<noteq> [] \<Longrightarrow> length (snocLast ls c) = length ls"
  by (cases ls rule: rev_cases) (simp_all add: snocLast_def)

lemma fieldAt_snocLast:
  assumes "vs \<noteq> []" and "isSpace c"
  shows "trim (fieldAt (snocLast vs c) i) = trim (fieldAt vs i)"
proof -
  obtain ys y where vs: "vs = ys @ [y]" using assms(1) by (cases vs rule: rev_cases) auto
  have s: "snocLast (ys @ [y]) c = ys @ [y @ [c]]" by (simp add: snocLast_def)
  consider "i < length ys" | "i = length ys" | "i > length ys" by linarith
  then show ?thesis
  proof cases
    case 1
    then show ?thesis by (simp add: s vs fieldAt_def nth_append)
  next
    case 2
    then show ?thesis using assms(2) by (simp add: s vs fieldAt_def trim_snoc_space)
  next
    case 3
    then show ?thesis by (simp add: s vs fieldAt_def)
  qed
qed

lemma buildRow_alike:
  assumes "alike l l'" and "d \<noteq> CR"
  shows "buildRow hs (split_char d l') = buildRow hs (split_char d l)"
proof (cases "l' = l")
  case True
  then show ?thesis by simp
next
  case False
  with assms(1) have l': "l' = l @ [CR]" by (simp add: alike_def)
  have "split_char d l' = snocLast (split_char d l) CR"
    unfolding l' using assms(2) by (intro split_char_snoc) simp
  then show ?thesis
    by (simp add: buildRow_cong fieldAt_snocLast split_char_nonempty)
qed

lemma parseLines_v0_alike:
  "list_all2 alike ls ls' \<Longrightarrow> d \<noteq> CR \<Longrightarrow> parseLines_v0 d hs ls' = parseLines_v0 d hs ls"
  by (induction ls ls' rule: list_all2_induct) (simp_all add: buildRow_alike Let_def)

text \<open>The earlier variant, too, gives the same result for both forms of line break: the
  carriage return left at the end of a line is trimmed away with the last field.\<close>

lemma parseFile_v0_crlf:
  "parseFile_v0 sel (crlf content) filename = parseFile_v0 sel content filename"
proof -
  define t where "t = trim content"
  define d where "d = getDelimiter sel content filename"
  define hs where "hs = map trim (split_char d (firstOf (split_char LF t)))"
  have tr: "trim (crlf content) = crlf t" unfolding t_def by (rule trim_crlf)
  have L: "list_all2 alike (split_char LF t) (split_char LF (crlf t))" by (rule split_LF_crlf)
  have len: "length (split_char LF (crlf t)) = length (split_char LF t)"
    using L by (simp add: list_all2_lengthD)
  have F: "alike (firstOf (split_lines content)) (firstOf (split_lines (crlf content)))"
    by (intro firstOf_alike split_lines_crlf)
  have dd: "getDelimiter_v0 sel (crlf content) filename = d"
    unfolding d_def getDelimiter_v0_eq by (rule getDelimiter_first_line[OF F])
  have d0: "getDelimiter_v0 sel content filename = d"
    unfolding d_def by (rule getDelimiter_v0_eq)
  have nCR: "d \<noteq> CR" unfolding d_def by (rule getDelimiter_not_CR)
  then have h: "map trim (split_char d (firstOf (split_char LF (crlf t)))) = hs"
    unfolding hs_def by (intro headers_alike firstOf_alike L)
  have p: "parseLines_v0 d hs (tl (split_char LF (crlf t))) = parseLines_v0 d hs (tl (split_char LF t))"
    using nCR by (intro parseLines_v0_alike tl_alike L)
  have "parseFile_v0 sel (crlf content) filename =
     (if length (split_char LF t) < 2 then Inl HeaderAndDataRequired
      else Inr \<lparr>headers = hs, rows = parseLines_v0 d hs (tl (split_char LF t)),
                delimiter = getDelimiterName d\<rparr>)"
    unfolding parseFile_v0_def Let_def tr dd len h p ..
  also have "\<dots> = parseFile_v0 sel content filename"
    unfolding parseFile_v0_def Let_def t_def[symmetric] d0 hs_def[symmetric] ..
  finally show ?thesis .
qed

section \<open>Classification of the keys\<close>



section \<open>Changed and unchanged records\<close>

text \<open>The entry of a key of both indices as the computation on own values gives it, for
  rows without a column \<open>__proto__\<close> (a row that \<open>parseFile\<close> builds has none): with D the
  columns of the two rows whose trimmed values differ, an absent value counting as the empty
  string, the entry is changed with a differences map over exactly D when D is not empty,
  and unchanged otherwise.\<close>

lemma compared_own:
  assumes i1: "map_of (indexOf keyColumn (rows file1) []) key = Some row1"
    and i2: "map_of (indexOf keyColumn (rows file2) []) key = Some row2"
    and plain: "''__proto__'' \<notin> fst ` set row1 \<union> fst ` set row2"
  shows
  "(let r = comparisonOf file1 file2 keyColumn;
        columns = fst ` set row1 \<union> fst ` set row2;
        D = {c \<in> columns. trim (valueOr row1 c) \<noteq> trim (valueOr row2 c)}
    in (D \<noteq> {} \<longrightarrow>
          (\<exists>ds. Changed key row1 row2 ds \<in> set (changed r)
              \<and> distinct (map fst ds) \<and> fst ` set ds = D
              \<and> (\<forall>c \<in> D. map_of ds c = Some (trim (valueOr row1 c), trim (valueOr row2 c)))
              \<and> (trimmedRow row1 \<and> trimmedRow row2 \<longrightarrow>
                    (\<forall>c \<in> D. map_of ds c = Some (valueOr row1 c, valueOr row2 c))))
          \<and> key \<notin> entryKey ` set (unchanged r))
     \<and> (D = {} \<longrightarrow>
          Unchanged key row1 \<in> set (unchanged r) \<and> key \<notin> entryKey ` set (changed r)))"
proof -
  define m1 where "m1 = indexOf keyColumn (rows file1) []"
  define m2 where "m2 = indexOf keyColumn (rows file2) []"
  define D where "D = {c \<in> fst ` set row1 \<union> fst ` set row2.
                         trim (valueOr row1 c) \<noteq> trim (valueOr row2 c)}"
  define ds where "ds = fst (rowDiff row1 row2)"
  let ?r = "comparisonOf file1 file2 keyColumn"
  have d1: "distinct (map fst m1)" unfolding m1_def by (simp add: distinct_indexOf)
  have g1: "map_of m1 key = Some row1" and g2: "map_of m2 key = Some row2"
    using i1 i2 by (simp_all add: m1_def m2_def)
  have e1: "(key, row1) \<in> set m1" using g1 by (rule map_of_SomeD)
  have c: "changed ?r = fst (bothPass m1 m2)" and u: "unchanged ?r = snd (bothPass m1 m2)"
    by (simp_all add: comparisonOf_lists m1_def m2_def)
  have ds_eq: "ds = map (\<lambda>c. (c, (trim (valueOr row1 c), trim (valueOr row2 c))))
                      (filter (differs row1 row2) (allColumns row1 row2))"
    using plain by (simp add: ds_def rowDiff_eq set_allColumns)
  have k_ds: "map fst ds = filter (differs row1 row2) (allColumns row1 row2)"
    unfolding ds_eq by (rule keys_tabulate)
  have dist_ds: "distinct (map fst ds)"
    unfolding k_ds by (simp add: allColumns_def distinct_newSet)
  have set_ds: "fst ` set ds = D"
    using k_ds differing_columns[of row1 row2] unfolding D_def by (metis set_map)
  have val_ds: "\<forall>c \<in> D. map_of ds c = Some (trim (valueOr row1 c), trim (valueOr row2 c))"
  proof
    fix c assume "c \<in> D"
    then have "c \<in> set (filter (differs row1 row2) (allColumns row1 row2))"
      unfolding D_def differing_columns .
    then show "map_of ds c = Some (trim (valueOr row1 c), trim (valueOr row2 c))"
      unfolding ds_eq by (rule map_of_tabulate)
  qed
  have raw_ds: "trimmedRow row1 \<and> trimmedRow row2 \<longrightarrow>
                  (\<forall>c \<in> D. map_of ds c = Some (valueOr row1 c, valueOr row2 c))"
    using val_ds by (simp add: valueOr_trimmed)
  have chg: "D \<noteq> {} \<longrightarrow>
          (\<exists>ds. Changed key row1 row2 ds \<in> set (changed ?r)
              \<and> distinct (map fst ds) \<and> fst ` set ds = D
              \<and> (\<forall>c \<in> D. map_of ds c = Some (trim (valueOr row1 c), trim (valueOr row2 c)))
              \<and> (trimmedRow row1 \<and> trimmedRow row2 \<longrightarrow>
                    (\<forall>c \<in> D. map_of ds c = Some (valueOr row1 c, valueOr row2 c))))
          \<and> key \<notin> entryKey ` set (unchanged ?r)"
  proof
    assume "D \<noteq> {}"
    then have ic: "isChanged row1 row2" unfolding D_def isChanged_iff .
    have "Changed key row1 row2 ds \<in> set (changed ?r)"
      unfolding c ds_def by (rule changed_entry_present[OF e1 g2 ic])
    moreover have "key \<notin> entryKey ` set (unchanged ?r)"
      unfolding u by (rule not_in_unchanged[OF d1 g1 g2 ic])
    ultimately show "(\<exists>ds. Changed key row1 row2 ds \<in> set (changed ?r)
              \<and> distinct (map fst ds) \<and> fst ` set ds = D
              \<and> (\<forall>c \<in> D. map_of ds c = Some (trim (valueOr row1 c), trim (valueOr row2 c)))
              \<and> (trimmedRow row1 \<and> trimmedRow row2 \<longrightarrow>
                    (\<forall>c \<in> D. map_of ds c = Some (valueOr row1 c, valueOr row2 c))))
          \<and> key \<notin> entryKey ` set (unchanged ?r)"
      using dist_ds set_ds val_ds raw_ds by blast
  qed
  have unc: "D = {} \<longrightarrow>
          Unchanged key row1 \<in> set (unchanged ?r) \<and> key \<notin> entryKey ` set (changed ?r)"
  proof
    assume "D = {}"
    then have ic: "\<not> isChanged row1 row2" unfolding D_def isChanged_iff by simp
    have "Unchanged key row1 \<in> set (unchanged ?r)"
      unfolding u by (rule unchanged_entry_present[OF e1 g2 ic])
    moreover have "key \<notin> entryKey ` set (changed ?r)"
      unfolding c by (rule not_in_changed[OF d1 g1 g2 ic])
    ultimately show "Unchanged key row1 \<in> set (unchanged ?r) \<and> key \<notin> entryKey ` set (changed ?r)"
      by blast
  qed
  show ?thesis
    unfolding Let_def D_def[symmetric] using chg unc by blast
qed

text \<open>
  Claim C2 says that a value absent from one of the two rows counts as the empty string.
  The script does so for a column such as \<open>note\<close>, and fails to for a column named like a
  member of \<open>Object.prototype\<close>. The files \<open>id / 1\<close> and \<open>id,constructor / 1,x\<close> are
  parsed into \<open>idFile\<close> and \<open>constructorFile\<close>. Key 1 is in both indices, and the row of
  the first file lacks the column \<open>constructor\<close>: reading it gives the inherited member,
  not \<open>undefined\<close>, so that \<open>(row1[column] || '').trim()\<close> throws \<open>TypeError\<close> and the
  comparison returns no result, in either order of the files. With the column named
  \<open>note\<close> the read gives \<open>undefined\<close> and the result has the changed entry of the claim,
  with the empty string as old value.
\<close>

theorem inherited_column_throws:
  "parseFile None ''id\<newline>1'' ''old.csv'' = Inr idFile
   \<and> parseFile None ''id,constructor\<newline>1,x'' ''new.csv'' = Inr constructorFile
   \<and> performComparison idFile constructorFile ''id'' = Inl TypeError
   \<and> performComparison constructorFile idFile ''id'' = Inl TypeError
   \<and> getProp [(''id'', ''1'')] ''constructor'' = Inherited
   \<and> parseFile None ''id,note\<newline>1,x'' ''new.csv'' = Inr noteFile
   \<and> getProp [(''id'', ''1'')] ''note'' = Undefined
   \<and> performComparison idFile noteFile ''id'' = Inr noteResult"
  by code_simp

text \<open>Whenever the comparison returns a result, the entry of a key of both indices is the
  one described above.\<close>

lemma compared_when_returned:
  assumes ret: "performComparison file1 file2 keyColumn = Inr r"
    and b1: "buildIndex keyColumn (rows file1) [] = Inr m1"
    and b2: "buildIndex keyColumn (rows file2) [] = Inr m2"
    and i1: "map_of m1 key = Some row1"
    and i2: "map_of m2 key = Some row2"
    and plain: "''__proto__'' \<notin> fst ` set row1 \<union> fst ` set row2"
  shows
  "(let columns = fst ` set row1 \<union> fst ` set row2;
        D = {c \<in> columns. trim (valueOr row1 c) \<noteq> trim (valueOr row2 c)}
    in (D \<noteq> {} \<longrightarrow>
          (\<exists>ds. Changed key row1 row2 ds \<in> set (changed r)
              \<and> distinct (map fst ds) \<and> fst ` set ds = D
              \<and> (\<forall>c \<in> D. map_of ds c = Some (trim (valueOr row1 c), trim (valueOr row2 c)))
              \<and> (trimmedRow row1 \<and> trimmedRow row2 \<longrightarrow>
                    (\<forall>c \<in> D. map_of ds c = Some (valueOr row1 c, valueOr row2 c))))
          \<and> key \<notin> entryKey ` set (unchanged r))
     \<and> (D = {} \<longrightarrow>
          Unchanged key row1 \<in> set (unchanged r) \<and> key \<notin> entryKey ` set (changed r)))"
proof -
  note p = performComparison_Inr[OF ret]
  have m1: "m1 = indexOf keyColumn (rows file1) []" using b1 p(2) by simp
  have m2: "m2 = indexOf keyColumn (rows file2) []" using b2 p(3) by simp
  show ?thesis
    unfolding p(1)
    using compared_own[OF i1[unfolded m1] i2[unfolded m2] plain, unfolded Let_def]
    unfolding Let_def .
qed

text \<open>A padded value is compared and recorded as trimmed, and a column that one row lacks,
  under an ordinary name, as the empty string.\<close>

lemma padded_and_absent:
  "performComparison
     \<lparr>headers = [''id'', ''v''], rows = [[(''id'', ''1''), (''v'', '' x '')]],
      delimiter = NameComma\<rparr>
     \<lparr>headers = [''id'', ''w''], rows = [[(''id'', ''1''), (''w'', ''x'')]],
      delimiter = NameComma\<rparr> ''id''
   = Inr \<lparr>added = [], removed = [],
          changed = [Changed ''1'' [(''id'', ''1''), (''v'', '' x '')]
                       [(''id'', ''1''), (''w'', ''x'')]
                       [(''v'', (''x'', [])), (''w'', ([], ''x''))]],
          unchanged = [],
          stats = \<lparr>total1 = 1, total2 = 1, addedCount = 0, removedCount = 0,
                    changedCount = 1, unchangedCount = 0\<rparr>\<rparr>"
  by code_simp
section \<open>Blank and repeated keys\<close>

text \<open>The index and the result lists as the computation on own values gives them.\<close>

lemma index_policy_own:
  "(let keep = (\<lambda>row. \<not> blankKey keyColumn row);
        m = indexOf keyColumn rs [];
        r = comparisonOf file1 file2 keyColumn;
        r' = comparisonOf (file1\<lparr>rows := filter keep (rows file1)\<rparr>)
               (file2\<lparr>rows := filter keep (rows file2)\<rparr>) keyColumn
    in m = indexOf keyColumn (filter keep rs) []
     \<and> (\<forall>(k, row) \<in> set m. row \<in> set rs \<and> map_of row keyColumn = Some k \<and> trim k \<noteq> [])
     \<and> distinct (map fst m)
     \<and> (\<forall>xs row ys k. rs = xs @ row # ys \<and> map_of row keyColumn = Some k \<and> trim k \<noteq> []
            \<and> (\<forall>y \<in> set ys. map_of y keyColumn \<noteq> Some k) \<longrightarrow> map_of m k = Some row)
     \<and> added r = added r' \<and> removed r = removed r' \<and> changed r = changed r'
     \<and> unchanged r = unchanged r'
     \<and> (\<forall>e \<in> set (added r @ removed r @ changed r @ unchanged r). trim (entryKey e) \<noteq> []))"
proof -
  define keep where "keep = (\<lambda>row. \<not> blankKey keyColumn row)"
  have keep_eq: "keep = (\<lambda>row. usableKey (map_of row keyColumn))"
    by (simp add: keep_def usableKey_iff)
  have flt: "indexOf keyColumn (filter keep xs) [] = indexOf keyColumn xs []" for xs
    unfolding keep_eq by (rule indexOf_filter)
  have p1: "indexOf keyColumn rs [] = indexOf keyColumn (filter keep rs) []"
    by (simp add: flt)
  have p2: "\<forall>(k, row) \<in> set (indexOf keyColumn rs []).
              row \<in> set rs \<and> map_of row keyColumn = Some k \<and> trim k \<noteq> []"
    using indexOf_entries[of _ _ keyColumn rs "[]"] by (auto simp: usableKey_Some)
  have p3: "distinct (map fst (indexOf keyColumn rs []))"
    by (simp add: distinct_indexOf)
  have p4: "\<forall>xs row ys k. rs = xs @ row # ys \<and> map_of row keyColumn = Some k \<and> trim k \<noteq> []
            \<and> (\<forall>y \<in> set ys. map_of y keyColumn \<noteq> Some k)
            \<longrightarrow> map_of (indexOf keyColumn rs []) k = Some row"
    using indexOf_last_wins by blast
  have p5: "added (comparisonOf file1 file2 keyColumn)
              = added (comparisonOf (file1\<lparr>rows := filter keep (rows file1)\<rparr>)
                  (file2\<lparr>rows := filter keep (rows file2)\<rparr>) keyColumn)"
    and p6: "removed (comparisonOf file1 file2 keyColumn)
              = removed (comparisonOf (file1\<lparr>rows := filter keep (rows file1)\<rparr>)
                  (file2\<lparr>rows := filter keep (rows file2)\<rparr>) keyColumn)"
    and p7: "changed (comparisonOf file1 file2 keyColumn)
              = changed (comparisonOf (file1\<lparr>rows := filter keep (rows file1)\<rparr>)
                  (file2\<lparr>rows := filter keep (rows file2)\<rparr>) keyColumn)"
    and p8: "unchanged (comparisonOf file1 file2 keyColumn)
              = unchanged (comparisonOf (file1\<lparr>rows := filter keep (rows file1)\<rparr>)
                  (file2\<lparr>rows := filter keep (rows file2)\<rparr>) keyColumn)"
    by (simp_all add: comparisonOf_lists flt)
  have p9: "\<forall>e \<in> set (added (comparisonOf file1 file2 keyColumn)
                 @ removed (comparisonOf file1 file2 keyColumn)
                 @ changed (comparisonOf file1 file2 keyColumn)
                 @ unchanged (comparisonOf file1 file2 keyColumn)). trim (entryKey e) \<noteq> []"
  proof
    fix e
    assume "e \<in> set (added (comparisonOf file1 file2 keyColumn)
                 @ removed (comparisonOf file1 file2 keyColumn)
                 @ changed (comparisonOf file1 file2 keyColumn)
                 @ unchanged (comparisonOf file1 file2 keyColumn))"
    then have "entryKey e \<in> set (map fst (indexOf keyColumn (rows file1) []))
                 \<union> set (map fst (indexOf keyColumn (rows file2) []))"
      unfolding comparisonOf_lists by (rule entry_keys_in_index)
    then show "trim (entryKey e) \<noteq> []"
      using index_keys_usable by blast
  qed
  show ?thesis
    unfolding Let_def keep_def[symmetric]
    by (intro conjI p1 p2 p3 p4 p5 p6 p7 p8 p9)
qed

text \<open>
  Claim C3. Building a key index fails only when a row inherits the key column as a member
  of \<open>Object.prototype\<close>: a blank key and a repeated key raise nothing. An index that is
  built drops every row whose key is blank: it is the index of the rows with a non-blank key
  alone, every entry of it holds a row of the dataset under that row's own non-blank key, a
  key occurs once in it, and the row stored under a key is the last row of the dataset with
  that key. Whenever \<open>performComparison\<close> returns a result, the comparison of the datasets
  without their blank-key rows returns the same four lists, and no entry has a blank key.
\<close>

theorem index_policy:
  "(let keep = (\<lambda>row. \<not> blankKey keyColumn row)
    in ((\<exists>m. buildIndex keyColumn rs [] = Inr m)
          \<longleftrightarrow> (\<forall>row \<in> set rs. getProp row keyColumn \<noteq> Inherited))
     \<and> (\<forall>m. buildIndex keyColumn rs [] = Inr m \<longrightarrow>
            buildIndex keyColumn (filter keep rs) [] = Inr m
          \<and> (\<forall>(k, row) \<in> set m. row \<in> set rs \<and> map_of row keyColumn = Some k \<and> trim k \<noteq> [])
          \<and> distinct (map fst m)
          \<and> (\<forall>xs row ys k. rs = xs @ row # ys \<and> map_of row keyColumn = Some k \<and> trim k \<noteq> []
                 \<and> (\<forall>y \<in> set ys. map_of y keyColumn \<noteq> Some k) \<longrightarrow> map_of m k = Some row))
     \<and> (\<forall>r. performComparison file1 file2 keyColumn = Inr r \<longrightarrow>
            (\<exists>r'. performComparison (file1\<lparr>rows := filter keep (rows file1)\<rparr>)
                     (file2\<lparr>rows := filter keep (rows file2)\<rparr>) keyColumn = Inr r'
                \<and> added r = added r' \<and> removed r = removed r' \<and> changed r = changed r'
                \<and> unchanged r = unchanged r')
          \<and> (\<forall>e \<in> set (added r @ removed r @ changed r @ unchanged r).
                 trim (entryKey e) \<noteq> [])))"
proof -
  define keep where "keep = (\<lambda>row. \<not> blankKey keyColumn row)"
  note own = index_policy_own[of keyColumn rs file1 file2, unfolded Let_def, folded keep_def]
  have keep_eq: "keep = (\<lambda>row. usableKey (map_of row keyColumn))"
    by (simp add: keep_def usableKey_iff)
  have flt: "indexOf keyColumn (filter keep xs) [] = indexOf keyColumn xs []" for xs
    unfolding keep_eq by (rule indexOf_filter)
  have p0: "(\<exists>m. buildIndex keyColumn rs [] = Inr m)
          \<longleftrightarrow> (\<forall>row \<in> set rs. getProp row keyColumn \<noteq> Inherited)"
    unfolding buildIndex_eq by auto
  have p1: "\<forall>m. buildIndex keyColumn rs [] = Inr m \<longrightarrow>
            buildIndex keyColumn (filter keep rs) [] = Inr m
          \<and> (\<forall>(k, row) \<in> set m. row \<in> set rs \<and> map_of row keyColumn = Some k \<and> trim k \<noteq> [])
          \<and> distinct (map fst m)
          \<and> (\<forall>xs row ys k. rs = xs @ row # ys \<and> map_of row keyColumn = Some k \<and> trim k \<noteq> []
                 \<and> (\<forall>y \<in> set ys. map_of y keyColumn \<noteq> Some k) \<longrightarrow> map_of m k = Some row)"
  proof (intro allI impI)
    fix m assume b: "buildIndex keyColumn rs [] = Inr m"
    then have n: "\<not> (\<exists>row \<in> set rs. getProp row keyColumn = Inherited)"
      and m: "m = indexOf keyColumn rs []"
      unfolding buildIndex_eq by (auto split: if_splits)
    from n have "\<not> (\<exists>row \<in> set (filter keep rs). getProp row keyColumn = Inherited)" by auto
    then have f: "buildIndex keyColumn (filter keep rs) [] = Inr m"
      unfolding buildIndex_eq m flt by simp
    show "buildIndex keyColumn (filter keep rs) [] = Inr m
          \<and> (\<forall>(k, row) \<in> set m. row \<in> set rs \<and> map_of row keyColumn = Some k \<and> trim k \<noteq> [])
          \<and> distinct (map fst m)
          \<and> (\<forall>xs row ys k. rs = xs @ row # ys \<and> map_of row keyColumn = Some k \<and> trim k \<noteq> []
                 \<and> (\<forall>y \<in> set ys. map_of y keyColumn \<noteq> Some k) \<longrightarrow> map_of m k = Some row)"
      unfolding m[symmetric, THEN eq_reflection]
      apply (rule conjI[OF f])
      unfolding m
      apply (rule conjI[OF own[THEN conjunct2, THEN conjunct1]])
      apply (rule conjI[OF own[THEN conjunct2, THEN conjunct2, THEN conjunct1]])
      apply (rule own[THEN conjunct2, THEN conjunct2, THEN conjunct2, THEN conjunct1])
      done
  qed
  have p2: "\<forall>r. performComparison file1 file2 keyColumn = Inr r \<longrightarrow>
            (\<exists>r'. performComparison (file1\<lparr>rows := filter keep (rows file1)\<rparr>)
                     (file2\<lparr>rows := filter keep (rows file2)\<rparr>) keyColumn = Inr r'
                \<and> added r = added r' \<and> removed r = removed r' \<and> changed r = changed r'
                \<and> unchanged r = unchanged r')
          \<and> (\<forall>e \<in> set (added r @ removed r @ changed r @ unchanged r).
                 trim (entryKey e) \<noteq> [])"
  proof (intro allI impI)
    fix r assume e: "performComparison file1 file2 keyColumn = Inr r"
    let ?g1 = "file1\<lparr>rows := filter keep (rows file1)\<rparr>"
    let ?g2 = "file2\<lparr>rows := filter keep (rows file2)\<rparr>"
    from e have n: "\<not> ((\<exists>row \<in> set (rows file1). getProp row keyColumn = Inherited)
         \<or> (\<exists>row \<in> set (rows file2). getProp row keyColumn = Inherited)
         \<or> passThrows (indexOf keyColumn (rows file1) []) (indexOf keyColumn (rows file2) []))"
      and r: "r = comparisonOf file1 file2 keyColumn"
      unfolding performComparison_eq by (auto split: if_splits)
    from n have "\<not> ((\<exists>row \<in> set (rows ?g1). getProp row keyColumn = Inherited)
         \<or> (\<exists>row \<in> set (rows ?g2). getProp row keyColumn = Inherited)
         \<or> passThrows (indexOf keyColumn (rows ?g1) []) (indexOf keyColumn (rows ?g2) []))"
      by (auto simp: flt)
    then have e': "performComparison ?g1 ?g2 keyColumn = Inr (comparisonOf ?g1 ?g2 keyColumn)"
      unfolding performComparison_eq by simp
    note rest = own[THEN conjunct2, THEN conjunct2, THEN conjunct2, THEN conjunct2, folded r]
    have "\<exists>r'. performComparison ?g1 ?g2 keyColumn = Inr r'
                \<and> added r = added r' \<and> removed r = removed r' \<and> changed r = changed r'
                \<and> unchanged r = unchanged r'"
      apply (rule exI[of _ "comparisonOf ?g1 ?g2 keyColumn"])
      apply (rule conjI[OF e'])
      apply (rule conjI[OF rest[THEN conjunct1]])
      apply (rule conjI[OF rest[THEN conjunct2, THEN conjunct1]])
      apply (rule conjI[OF rest[THEN conjunct2, THEN conjunct2, THEN conjunct1]])
      apply (rule rest[THEN conjunct2, THEN conjunct2, THEN conjunct2, THEN conjunct1])
      done
    moreover have "\<forall>e \<in> set (added r @ removed r @ changed r @ unchanged r).
                 trim (entryKey e) \<noteq> []"
      by (rule rest[THEN conjunct2, THEN conjunct2, THEN conjunct2, THEN conjunct2])
    ultimately show "(\<exists>r'. performComparison ?g1 ?g2 keyColumn = Inr r'
                \<and> added r = added r' \<and> removed r = removed r' \<and> changed r = changed r'
                \<and> unchanged r = unchanged r')
          \<and> (\<forall>e \<in> set (added r @ removed r @ changed r @ unchanged r).
                 trim (entryKey e) \<noteq> [])" by (rule conjI)
  qed
  show ?thesis
    unfolding Let_def keep_def[symmetric] by (intro conjI p0 p1 p2)
qed

text \<open>A dataset with a blank key and a repeated key: the blank-key row is dropped and the
  later row of key 1 is the one kept.\<close>

theorem index_policy_witness:
  "(let r1 = [(''id'', ''1''), (''v'', ''a'')];
        r2 = [(''id'', '' ''), (''v'', ''b'')];
        r3 = [(''id'', ''1''), (''v'', ''c'')];
        f = \<lparr>headers = [''id'', ''v''], rows = [r1, r2, r3], delimiter = NameComma\<rparr>;
        g = \<lparr>headers = [''id'', ''v''], rows = [r1, r3], delimiter = NameComma\<rparr>;
        st = \<lparr>total1 = 3, total2 = 3, addedCount = 0, removedCount = 0, changedCount = 0,
               unchangedCount = 1\<rparr>;
        r = \<lparr>added = [], removed = [], changed = [], unchanged = [Unchanged ''1'' r3],
              stats = st\<rparr>
    in blankKey ''id'' r2
     \<and> buildIndex ''id'' [r1, r2, r3] [] = Inr [(''1'', r3)]
     \<and> buildIndex ''id'' [r1, r3] [] = Inr [(''1'', r3)]
     \<and> performComparison f f ''id'' = Inr r
     \<and> unchanged r = [Unchanged ''1'' r3]
     \<and> (\<exists>r'. performComparison g g ''id'' = Inr r' \<and> unchanged r = unchanged r'))"
proof -
  let ?r1 = "[(''id'', ''1''), (''v'', ''a'')]"
  let ?r2 = "[(''id'', '' ''), (''v'', ''b'')]"
  let ?r3 = "[(''id'', ''1''), (''v'', ''c'')]"
  let ?f = "\<lparr>headers = [''id'', ''v''], rows = [?r1, ?r2, ?r3], delimiter = NameComma\<rparr>"
  let ?g = "\<lparr>headers = [''id'', ''v''], rows = [?r1, ?r3], delimiter = NameComma\<rparr>"
  let ?r = "\<lparr>added = [], removed = [], changed = [], unchanged = [Unchanged ''1'' ?r3],
              stats = \<lparr>total1 = 3, total2 = 3, addedCount = 0, removedCount = 0,
                        changedCount = 0, unchangedCount = 1\<rparr>\<rparr>"
  note t = index_policy[of "''id''" "[?r1, ?r2, ?r3]" ?f ?f, unfolded Let_def]
  have blank: "blankKey ''id'' ?r2" by code_simp
  have keep: "filter (\<lambda>row. \<not> blankKey ''id'' row) [?r1, ?r2, ?r3] = [?r1, ?r3]" by code_simp
  have keepf: "?f\<lparr>rows := filter (\<lambda>row. \<not> blankKey ''id'' row) (rows ?f)\<rparr> = ?g"
    using keep by simp
  have b: "buildIndex ''id'' [?r1, ?r2, ?r3] [] = Inr [(''1'', ?r3)]" by code_simp
  have a: "buildIndex ''id'' [?r1, ?r3] [] = Inr [(''1'', ?r3)]"
    using t[THEN conjunct2, THEN conjunct1, THEN spec, THEN mp, OF b, THEN conjunct1]
    unfolding keep .
  have c: "performComparison ?f ?f ''id'' = Inr ?r" by code_simp
  have u: "unchanged ?r = [Unchanged ''1'' ?r3]" by simp
  have "\<exists>r'. performComparison ?g ?g ''id'' = Inr r'
          \<and> added ?r = added r' \<and> removed ?r = removed r' \<and> changed ?r = changed r'
          \<and> unchanged ?r = unchanged r'"
    using t[THEN conjunct2, THEN conjunct2, THEN spec, THEN mp, OF c, THEN conjunct1]
    unfolding keepf .
  then have d: "\<exists>r'. performComparison ?g ?g ''id'' = Inr r' \<and> unchanged ?r = unchanged r'"
    by blast
  show ?thesis unfolding Let_def by (intro conjI blank b a c u d)
qed
section \<open>Failures of parseFile\<close>

text \<open>
  Claim C4 says that \<open>parseFile\<close> fails only for a blank content, fewer than two non-empty
  lines, an empty header field, or no data row left once the blank rows are dropped. The
  script also fails on contents with none of these. In the comma-separated content
  \<open>a,__proto__ / ,x\<close> both lines are non-empty, the header fields are \<open>a\<close> and \<open>__proto__\<close>,
  and the data line has the field \<open>x\<close>; but the assignment \<open>row['__proto__'] = 'x'\<close> creates
  no property, the row is left with the empty value of \<open>a\<close> alone and is dropped, and
  \<open>parseFile\<close> throws for the absence of data rows. The same line under the header \<open>a,b\<close>
  is kept. In the tab-separated content \<open>emptyCellSame\<close> the data line is an empty cell, a tab
  and \<open>4\<close>; the script trims the line before it splits it, the tab goes with the trim, \<open>4\<close>
  becomes the first field and the second is missing, so the later header \<open>a\<close> gets the empty
  string, the row is dropped and \<open>parseFile\<close> throws again. The earlier variant of the script
  splits the line as it is and returns the row with \<open>4\<close>.
\<close>

theorem data_line_elided:
  "parseFile None ''a,__proto__\<newline>,x'' ''x.csv'' = Inl NoDataRows
   \<and> nonEmptyLines ''a,__proto__\<newline>,x'' = [''a,__proto__'', '',x'']
   \<and> map trim (split_char CHR '','' ''a,__proto__'') = [''a'', ''__proto__'']
   \<and> map trim (split_char CHR '','' '',x'') = [[], ''x'']
   \<and> buildRow [''a'', ''__proto__''] [[], ''x''] = [(''a'', [])]
   \<and> parseFile None ''a,b\<newline>,x'' ''x.csv''
       = Inr \<lparr>headers = [''a'', ''b''], rows = [[(''a'', []), (''b'', ''x'')]],
              delimiter = NameComma\<rparr>
   \<and> parseFile None emptyCellSame ''x.tsv'' = Inl NoDataRows
   \<and> nonEmptyLines emptyCellSame = [''a'' @ [TAB] @ ''a'', emptyCellLine]
   \<and> map trim (split_char TAB emptyCellLine) = [[], ''4'']
   \<and> split_char TAB (trim emptyCellLine) = [''4'']
   \<and> parseFile_v0 None emptyCellSame ''x.tsv''
       = Inr \<lparr>headers = [''a'', ''a''], rows = [[(''a'', ''4'')]], delimiter = NameTab\<rparr>"
  by code_simp

text \<open>
  The outcome of \<open>parseFile\<close> on every input, in terms of the rows that the script builds:
  a data line survives when it is not blank and the row built from the fields of the trimmed
  line, \<open>__proto__\<close> left out, has a non-empty value. Each of the four errors has its
  condition, the earlier ones failing, and every other input gives the dataset of the
  trimmed header fields, the rows of the surviving lines and the name of the delimiter.
  Counting the lines that are not empty and counting the lines that are not blank give the
  same second condition.
\<close>

lemma parse_outcomes:
  "(let d = getDelimiter sel content filename;
        hs = map trim (split_char d (firstOf (split_lines (trim content))));
        survivors = filter (survives d hs) (tl (split_lines (trim content)));
        blank = (\<forall>c \<in> set content. isSpace c);
        few = (length (nonEmptyLines content) < 2);
        result = parseFile sel content filename
    in (result = Inl EmptyFile \<longleftrightarrow> blank)
     \<and> (result = Inl HeaderAndDataRequired \<longleftrightarrow> \<not> blank \<and> few)
     \<and> (result = Inl EmptyHeader \<longleftrightarrow> \<not> blank \<and> \<not> few \<and> [] \<in> set hs)
     \<and> (result = Inl NoDataRows \<longleftrightarrow> \<not> blank \<and> \<not> few \<and> [] \<notin> set hs \<and> survivors = [])
     \<and> ((\<exists>e. result = Inl e) \<longleftrightarrow> blank \<or> few \<or> [] \<in> set hs \<or> survivors = [])
     \<and> (\<not> (blank \<or> few \<or> [] \<in> set hs \<or> survivors = []) \<longrightarrow>
          result = Inr \<lparr>headers = hs, rows = map (rowOfLine d hs) survivors,
                        delimiter = getDelimiterName d\<rparr>)
     \<and> (few \<longleftrightarrow>
          length (filter (\<lambda>l. trim l \<noteq> []) (split_lines (trim content))) < 2))"
proof -
  define d where "d = getDelimiter sel content filename"
  define hs where "hs = map trim (split_char d (firstOf (split_lines (trim content))))"
  define survivors where "survivors = filter (survives d hs) (tl (split_lines (trim content)))"
  define blank where "blank = (\<forall>c \<in> set content. isSpace c)"
  define few where "few = (length (nonEmptyLines content) < 2)"
  define result where "result = parseFile sel content filename"
  have res: "result =
     (if blank then Inl EmptyFile
      else if few then Inl HeaderAndDataRequired
      else if [] \<in> set hs then Inl EmptyHeader
      else if survivors = [] then Inl NoDataRows
      else Inr \<lparr>headers = hs, rows = map (rowOfLine d hs) survivors,
                delimiter = getDelimiterName d\<rparr>)"
    unfolding result_def d_def hs_def survivors_def blank_def few_def
    using parseFile_outcome[of sel content filename] unfolding Let_def .
  have c1: "result = Inl EmptyFile \<longleftrightarrow> blank" unfolding res by simp
  have c2: "result = Inl HeaderAndDataRequired \<longleftrightarrow> \<not> blank \<and> few" unfolding res by simp
  have c3: "result = Inl EmptyHeader \<longleftrightarrow> \<not> blank \<and> \<not> few \<and> [] \<in> set hs" unfolding res by simp
  have c4: "result = Inl NoDataRows \<longleftrightarrow> \<not> blank \<and> \<not> few \<and> [] \<notin> set hs \<and> survivors = []"
    unfolding res by simp
  have c5: "(\<exists>e. result = Inl e) \<longleftrightarrow> blank \<or> few \<or> [] \<in> set hs \<or> survivors = []"
    unfolding res by simp
  have c6: "\<not> (blank \<or> few \<or> [] \<in> set hs \<or> survivors = []) \<longrightarrow>
          result = Inr \<lparr>headers = hs, rows = map (rowOfLine d hs) survivors,
                        delimiter = getDelimiterName d\<rparr>"
    unfolding res by simp
  have c7: "few \<longleftrightarrow>
          length (filter (\<lambda>l. trim l \<noteq> []) (split_lines (trim content))) < 2"
    unfolding few_def by (rule two_lines_blank_iff[symmetric])
  show ?thesis
    unfolding Let_def d_def[symmetric] hs_def[symmetric] survivors_def[symmetric]
      blank_def[symmetric] few_def[symmetric] result_def[symmetric]
    by (intro conjI c1 c2 c3 c4 c5 c6 c7)
qed
section \<open>Resolution of the delimiter\<close>

text \<open>
  Claim C5. With the selector at tab, comma, semicolon or pipe, \<open>getDelimiter\<close> returns
  that character whatever the content and the file name are. With the selector at auto (or
  absent), a file name that ends in .csv once lower-cased gives the comma and one that ends
  in .tsv gives the tab; for any other file name the result is the character of
  \<open>priority\<close> (tab, comma, semicolon, pipe) that occurs most often in the first line of
  the content, the earliest of them in \<open>priority\<close> when several reach the highest
  count, and the tab when none of the four occurs.
\<close>

theorem delimiter_resolution:
  "getDelimiter (Some ''tab'') content filename = TAB
   \<and> getDelimiter (Some ''comma'') content filename = CHR '',''
   \<and> getDelimiter (Some ''semicolon'') content filename = CHR '';''
   \<and> getDelimiter (Some ''pipe'') content filename = CHR ''|''
   \<and> (sel = None \<or> sel = Some ''auto'' \<longrightarrow>
        (let d = getDelimiter sel content filename;
             line = firstOf (split_lines content)
         in (endsWith (toLowerCase filename) ''.csv'' \<longrightarrow> d = CHR '','')
          \<and> (endsWith (toLowerCase filename) ''.tsv'' \<longrightarrow> d = TAB)
          \<and> (\<not> endsWith (toLowerCase filename) ''.csv''
               \<and> \<not> endsWith (toLowerCase filename) ''.tsv'' \<longrightarrow>
               (\<exists>i < 4. d = priority ! i
                   \<and> (\<forall>j < 4. countChar (priority ! j) line \<le> countChar d line)
                   \<and> (\<forall>j < i. countChar (priority ! j) line < countChar d line))
               \<and> ((\<forall>j < 4. countChar (priority ! j) line = 0) \<longrightarrow> d = TAB))))"
proof -
  have m1: "getDelimiter (Some ''tab'') content filename = TAB"
    and m2: "getDelimiter (Some ''comma'') content filename = CHR '',''"
    and m3: "getDelimiter (Some ''semicolon'') content filename = CHR '';''"
    and m4: "getDelimiter (Some ''pipe'') content filename = CHR ''|''"
    by (simp_all add: getDelimiter_def delimiterMap_def)
  have au: "sel = None \<or> sel = Some ''auto'' \<longrightarrow>
        (let d = getDelimiter sel content filename;
             line = firstOf (split_lines content)
         in (endsWith (toLowerCase filename) ''.csv'' \<longrightarrow> d = CHR '','')
          \<and> (endsWith (toLowerCase filename) ''.tsv'' \<longrightarrow> d = TAB)
          \<and> (\<not> endsWith (toLowerCase filename) ''.csv''
               \<and> \<not> endsWith (toLowerCase filename) ''.tsv'' \<longrightarrow>
               (\<exists>i < 4. d = priority ! i
                   \<and> (\<forall>j < 4. countChar (priority ! j) line \<le> countChar d line)
                   \<and> (\<forall>j < i. countChar (priority ! j) line < countChar d line))
               \<and> ((\<forall>j < 4. countChar (priority ! j) line = 0) \<longrightarrow> d = TAB)))"
  proof
    assume a: "sel = None \<or> sel = Some ''auto''"
    define line where "line = firstOf (split_lines content)"
    define d where "d = getDelimiter sel content filename"
    note g = getDelimiter_auto[OF a, of content filename, folded line_def d_def]
    have csv: "endsWith (toLowerCase filename) ''.csv'' \<longrightarrow> d = CHR '',''"
      using g by simp
    have tsv: "endsWith (toLowerCase filename) ''.tsv'' \<longrightarrow> d = TAB"
      using g endsWith_exclusive[of "toLowerCase filename"] by auto
    have cnt: "\<not> endsWith (toLowerCase filename) ''.csv''
               \<and> \<not> endsWith (toLowerCase filename) ''.tsv'' \<longrightarrow>
               (\<exists>i < 4. d = priority ! i
                   \<and> (\<forall>j < 4. countChar (priority ! j) line \<le> countChar d line)
                   \<and> (\<forall>j < i. countChar (priority ! j) line < countChar d line))
               \<and> ((\<forall>j < 4. countChar (priority ! j) line = 0) \<longrightarrow> d = TAB)"
    proof
      assume n: "\<not> endsWith (toLowerCase filename) ''.csv''
               \<and> \<not> endsWith (toLowerCase filename) ''.tsv''"
      have dd: "d = (if Max (set (map (\<lambda>d. countChar d line) priority)) = 0 then TAB
                  else (case find (\<lambda>d. countChar d line
                           = Max (set (map (\<lambda>d. countChar d line) priority))) priority of
                          Some d \<Rightarrow> d | None \<Rightarrow> TAB))"
        using g n by simp
      have ex: "\<exists>i < 4. d = priority ! i
                   \<and> (\<forall>j < 4. countChar (priority ! j) line \<le> countChar d line)
                   \<and> (\<forall>j < i. countChar (priority ! j) line < countChar d line)"
        unfolding dd by (rule choose_by_count)
      have zero: "(\<forall>j < 4. countChar (priority ! j) line = 0) \<longrightarrow> d = TAB"
      proof
        assume z: "\<forall>j < 4. countChar (priority ! j) line = 0"
        from ex obtain i where i: "i < 4" "d = priority ! i"
          "\<forall>j < i. countChar (priority ! j) line < countChar d line" by blast
        have "countChar d line = 0" using i(1,2) z by simp
        with i(3) have "i = 0" by (cases i) auto
        with i(2) show "d = TAB" by (simp add: priority_def)
      qed
      from ex zero show "(\<exists>i < 4. d = priority ! i
                   \<and> (\<forall>j < 4. countChar (priority ! j) line \<le> countChar d line)
                   \<and> (\<forall>j < i. countChar (priority ! j) line < countChar d line))
               \<and> ((\<forall>j < 4. countChar (priority ! j) line = 0) \<longrightarrow> d = TAB)" ..
    qed
    show "(let d = getDelimiter sel content filename;
             line = firstOf (split_lines content)
         in (endsWith (toLowerCase filename) ''.csv'' \<longrightarrow> d = CHR '','')
          \<and> (endsWith (toLowerCase filename) ''.tsv'' \<longrightarrow> d = TAB)
          \<and> (\<not> endsWith (toLowerCase filename) ''.csv''
               \<and> \<not> endsWith (toLowerCase filename) ''.tsv'' \<longrightarrow>
               (\<exists>i < 4. d = priority ! i
                   \<and> (\<forall>j < 4. countChar (priority ! j) line \<le> countChar d line)
                   \<and> (\<forall>j < i. countChar (priority ! j) line < countChar d line))
               \<and> ((\<forall>j < 4. countChar (priority ! j) line = 0) \<longrightarrow> d = TAB)))"
      unfolding Let_def line_def[symmetric] d_def[symmetric]
      using csv tsv cnt by blast
  qed
  from m1 m2 m3 m4 au show ?thesis by blast
qed

text \<open>A first line with three commas and one tab under the name x.txt resolves to the
  comma; under the name x.CSV a line of tabs resolves to the comma as well.\<close>

theorem delimiter_resolution_witness:
  "(let content = ''a,b,c,d'' @ [TAB] @ ''e'' @ [LF] @ ''1,2,3,4'' @ [TAB] @ ''5'';
        line = firstOf (split_lines content);
        d = getDelimiter None content ''x.txt''
    in \<not> endsWith (toLowerCase ''x.txt'') ''.csv''
     \<and> \<not> endsWith (toLowerCase ''x.txt'') ''.tsv''
     \<and> d = CHR '',''
     \<and> countChar TAB line = 1 \<and> countChar d line = 3
     \<and> (\<forall>j < 4. countChar (priority ! j) line \<le> countChar d line)
     \<and> endsWith (toLowerCase ''x.CSV'') ''.csv''
     \<and> getDelimiter (Some ''auto'') [CHR ''a'', TAB, CHR ''b'', TAB, CHR ''c''] ''x.CSV'' = CHR '','')"
proof -
  let ?content = "''a,b,c,d'' @ [TAB] @ ''e'' @ [LF] @ ''1,2,3,4'' @ [TAB] @ ''5''"
  let ?line = "firstOf (split_lines ?content)"
  let ?d = "getDelimiter None ?content ''x.txt''"
  note t = delimiter_resolution[of ?content "''x.txt''" None, unfolded Let_def]
  note t2 = delimiter_resolution[of "[CHR ''a'', TAB, CHR ''b'', TAB, CHR ''c'']" "''x.CSV''"
              "Some ''auto''", unfolded Let_def]
  have h1: "\<not> endsWith (toLowerCase ''x.txt'') ''.csv''"
    and h2: "\<not> endsWith (toLowerCase ''x.txt'') ''.tsv''"
    and h3: "endsWith (toLowerCase ''x.CSV'') ''.csv''"
    by code_simp+
  have v: "?d = CHR '',''" and c1: "countChar TAB ?line = 1" and c2: "countChar ?d ?line = 3"
    by code_simp+
  have mx: "\<forall>j < 4. countChar (priority ! j) ?line \<le> countChar ?d ?line"
    using t h1 h2 by blast
  have csv: "getDelimiter (Some ''auto'') [CHR ''a'', TAB, CHR ''b'', TAB, CHR ''c''] ''x.CSV'' = CHR '',''"
    using t2 h3 by blast
  show ?thesis unfolding Let_def using h1 h2 h3 v c1 c2 mx csv by blast
qed

section \<open>Identical inputs\<close>

text \<open>A dataset compared with itself, as the computation on own values gives it; no
  column of a row is read as an inherited member when the row is compared with itself.\<close>

lemma identical_inputs_own:
  "(let r = comparisonOf file file keyColumn
    in added r = [] \<and> removed r = [] \<and> changed r = []
     \<and> total1 (stats r) = length (rows file) \<and> total2 (stats r) = length (rows file)
     \<and> map entryKey (unchanged r) = map fst (indexOf keyColumn (rows file) [])
     \<and> length (unchanged r) = card (set (rowKeys keyColumn (rows file)))
     \<and> length (unchanged r) \<le> total1 (stats r)
     \<and> (length (unchanged r) = total1 (stats r) \<longleftrightarrow>
          (\<forall>row \<in> set (rows file). \<not> blankKey keyColumn row)
          \<and> distinct (rowKeys keyColumn (rows file))))"
proof -
  define m where "m = indexOf keyColumn (rows file) []"
  let ?r = "comparisonOf file file keyColumn"
  have d: "distinct (map fst m)" unfolding m_def by (simp add: distinct_indexOf)
  have same: "\<forall>(k, r) \<in> set m. map_of m k = Some r"
    using d by (auto intro: map_of_is_SomeI)
  then have cov: "\<forall>(k, r) \<in> set m. map_of m k \<noteq> None" by auto
  have a: "added ?r = []"
    unfolding comparisonOf_lists m_def[symmetric] by (rule addedPass_covered[OF cov])
  have rm: "removed ?r = []"
    unfolding comparisonOf_lists m_def[symmetric] by (rule removedPass_covered[OF cov])
  have c: "changed ?r = []"
    unfolding comparisonOf_lists m_def[symmetric] by (simp add: bothPass_same[OF same])
  have u: "unchanged ?r = map (\<lambda>(k, r). Unchanged k r) m"
    unfolding comparisonOf_lists m_def[symmetric] by (simp add: bothPass_same[OF same])
  have uk: "map entryKey (unchanged ?r) = map fst m"
    unfolding u by (induction m) auto
  have ul: "length (unchanged ?r) = length m" unfolding u by simp
  have t1: "total1 (stats ?r) = length (rows file)" and t2: "total2 (stats ?r) = length (rows file)"
    by (simp_all add: comparisonOf_def Let_def split: prod.splits)
  have lc: "length (unchanged ?r) = card (set (rowKeys keyColumn (rows file)))"
    unfolding ul m_def by (rule length_index)
  have "card (set (rowKeys keyColumn (rows file))) \<le> length (rowKeys keyColumn (rows file))"
    by (rule card_length)
  also have "\<dots> \<le> length (rows file)" by (simp add: rowKeys_def)
  finally have le: "length (unchanged ?r) \<le> total1 (stats ?r)" unfolding lc t1 .
  have iff: "length (unchanged ?r) = total1 (stats ?r) \<longleftrightarrow>
          (\<forall>row \<in> set (rows file). \<not> blankKey keyColumn row)
          \<and> distinct (rowKeys keyColumn (rows file))"
    unfolding ul t1 m_def by (rule index_full_iff)
  show ?thesis
    unfolding Let_def using a rm c t1 t2 uk[unfolded m_def] lc le iff by blast
qed

lemma inheritedRead_self: "\<not> inheritedRead row row"
  by (auto simp: inheritedRead_def set_allColumns getProp_Inherited_iff map_of_eq_None_iff)

lemma passThrows_self: "distinct (map fst m) \<Longrightarrow> \<not> passThrows m m"
  by (auto simp: passThrows_def inheritedRead_self split: option.splits)

text \<open>
  Claim C6, as stated, fails. The file of two rows with the same key is parsed into
  \<open>repeatedKeyFile\<close>; compared with itself it gives one unchanged entry, while both totals
  are 2.
\<close>

theorem identical_inputs_counterexample:
  "performComparison repeatedKeyFile repeatedKeyFile ''id'' = Inr repeatedKeyResult
   \<and> length (unchanged repeatedKeyResult) \<noteq> total1 (stats repeatedKeyResult)
   \<and> length (unchanged repeatedKeyResult) = 1
   \<and> total1 (stats repeatedKeyResult) = 2
   \<and> total2 (stats repeatedKeyResult) = 2
   \<and> parseFile None ''id,v\<newline>1,a\<newline>1,b'' ''f.csv'' = Inr repeatedKeyFile"
  by code_simp

text \<open>
  Claim C6, amended. Comparing a dataset with itself returns a result unless a row inherits
  the key column as a member of \<open>Object.prototype\<close>. The result has empty added, removed
  and changed lists, and both totals are the number of rows. The unchanged list has one
  entry for each key of the index, that is for each distinct non-blank key of the rows, so
  it is at most as long as the totals; it is as long exactly when no row has a blank key and
  no two rows share a key.
\<close>

theorem identical_inputs:
  "((\<exists>r. performComparison file file keyColumn = Inr r)
      \<longleftrightarrow> (\<forall>row \<in> set (rows file). getProp row keyColumn \<noteq> Inherited))
   \<and> (\<forall>r. performComparison file file keyColumn = Inr r \<longrightarrow>
        added r = [] \<and> removed r = [] \<and> changed r = []
      \<and> total1 (stats r) = length (rows file) \<and> total2 (stats r) = length (rows file)
      \<and> (\<exists>m. buildIndex keyColumn (rows file) [] = Inr m \<and> map entryKey (unchanged r) = map fst m)
      \<and> length (unchanged r) = card (set (rowKeys keyColumn (rows file)))
      \<and> length (unchanged r) \<le> total1 (stats r)
      \<and> (length (unchanged r) = total1 (stats r) \<longleftrightarrow>
           (\<forall>row \<in> set (rows file). \<not> blankKey keyColumn row)
           \<and> distinct (rowKeys keyColumn (rows file))))"
proof -
  have nt: "\<not> passThrows (indexOf keyColumn (rows file) []) (indexOf keyColumn (rows file) [])"
    by (rule passThrows_self) (simp add: distinct_indexOf)
  have p0: "(\<exists>r. performComparison file file keyColumn = Inr r)
      \<longleftrightarrow> (\<forall>row \<in> set (rows file). getProp row keyColumn \<noteq> Inherited)"
    unfolding performComparison_eq using nt by auto
  have p1: "\<forall>r. performComparison file file keyColumn = Inr r \<longrightarrow>
        added r = [] \<and> removed r = [] \<and> changed r = []
      \<and> total1 (stats r) = length (rows file) \<and> total2 (stats r) = length (rows file)
      \<and> (\<exists>m. buildIndex keyColumn (rows file) [] = Inr m \<and> map entryKey (unchanged r) = map fst m)
      \<and> length (unchanged r) = card (set (rowKeys keyColumn (rows file)))
      \<and> length (unchanged r) \<le> total1 (stats r)
      \<and> (length (unchanged r) = total1 (stats r) \<longleftrightarrow>
           (\<forall>row \<in> set (rows file). \<not> blankKey keyColumn row)
           \<and> distinct (rowKeys keyColumn (rows file)))"
  proof (intro allI impI)
    fix r assume e: "performComparison file file keyColumn = Inr r"
    note ret = performComparison_Inr[OF e]
    note own = identical_inputs_own[of "file" "keyColumn", unfolded Let_def, folded ret(1)]
    have ix: "\<exists>m. buildIndex keyColumn (rows file) [] = Inr m
                \<and> map entryKey (unchanged r) = map fst m"
      apply (rule exI[of _ "indexOf keyColumn (rows file) []"])
      apply (rule conjI[OF ret(2)])
      using own apply blast
      done
    show "added r = [] \<and> removed r = [] \<and> changed r = []
      \<and> total1 (stats r) = length (rows file) \<and> total2 (stats r) = length (rows file)
      \<and> (\<exists>m. buildIndex keyColumn (rows file) [] = Inr m \<and> map entryKey (unchanged r) = map fst m)
      \<and> length (unchanged r) = card (set (rowKeys keyColumn (rows file)))
      \<and> length (unchanged r) \<le> total1 (stats r)
      \<and> (length (unchanged r) = total1 (stats r) \<longleftrightarrow>
           (\<forall>row \<in> set (rows file). \<not> blankKey keyColumn row)
           \<and> distinct (rowKeys keyColumn (rows file)))"
      apply (rule conjI[OF own[THEN conjunct1]])
      apply (rule conjI[OF own[THEN conjunct2, THEN conjunct1]])
      apply (rule conjI[OF own[THEN conjunct2, THEN conjunct2, THEN conjunct1]])
      apply (rule conjI[OF own[THEN conjunct2, THEN conjunct2, THEN conjunct2, THEN conjunct1]])
      apply (rule conjI[OF own[THEN conjunct2, THEN conjunct2, THEN conjunct2, THEN conjunct2,
                THEN conjunct1]])
      apply (rule conjI[OF ix])
      apply (rule own[THEN conjunct2, THEN conjunct2, THEN conjunct2, THEN conjunct2,
                THEN conjunct2, THEN conjunct2])
      done
  qed
  show ?thesis by (intro conjI p0 p1)
qed

text \<open>Two rows with the keys 1 and 2: the unchanged list is as long as the totals.\<close>

theorem identical_inputs_witness:
  "(let f = \<lparr>headers = [''id'', ''v''],
              rows = [[(''id'', ''1''), (''v'', ''a'')], [(''id'', ''2''), (''v'', ''b'')]],
              delimiter = NameComma\<rparr>;
        r = \<lparr>added = [], removed = [], changed = [],
              unchanged = [Unchanged ''1'' [(''id'', ''1''), (''v'', ''a'')],
                           Unchanged ''2'' [(''id'', ''2''), (''v'', ''b'')]],
              stats = \<lparr>total1 = 2, total2 = 2, addedCount = 0, removedCount = 0,
                        changedCount = 0, unchangedCount = 2\<rparr>\<rparr>
    in performComparison f f ''id'' = Inr r
     \<and> (\<exists>r'. performComparison f f ''id'' = Inr r')
     \<and> distinct (rowKeys ''id'' (rows f))
     \<and> length (unchanged r) = total1 (stats r)
     \<and> total1 (stats r) = 2
     \<and> added r = [] \<and> removed r = [] \<and> changed r = [])"
proof -
  let ?f = "\<lparr>headers = [''id'', ''v''],
              rows = [[(''id'', ''1''), (''v'', ''a'')], [(''id'', ''2''), (''v'', ''b'')]],
              delimiter = NameComma\<rparr>"
  let ?r = "\<lparr>added = [], removed = [], changed = [],
              unchanged = [Unchanged ''1'' [(''id'', ''1''), (''v'', ''a'')],
                           Unchanged ''2'' [(''id'', ''2''), (''v'', ''b'')]],
              stats = \<lparr>total1 = 2, total2 = 2, addedCount = 0, removedCount = 0,
                        changedCount = 0, unchangedCount = 2\<rparr>\<rparr>"
  note t = identical_inputs[of ?f "''id''"]
  have h0: "\<forall>row \<in> set (rows ?f). getProp row ''id'' \<noteq> Inherited" by code_simp
  have h1: "\<forall>row \<in> set (rows ?f). \<not> blankKey ''id'' row" by code_simp
  have h2: "distinct (rowKeys ''id'' (rows ?f))" by code_simp
  have e: "performComparison ?f ?f ''id'' = Inr ?r" by code_simp
  have ex: "\<exists>r'. performComparison ?f ?f ''id'' = Inr r'"
    using t[THEN conjunct1] h0 by blast
  note c = t[THEN conjunct2, THEN spec, THEN mp, OF e]
  have a: "added ?r = []" and rm: "removed ?r = []" and ch: "changed ?r = []"
    and t1: "total1 (stats ?r) = length (rows ?f)"
    using c by blast+
  have n: "length (rows ?f) = 2" by simp
  have full: "length (unchanged ?r) = total1 (stats ?r)"
    using c h1 h2 by blast
  show ?thesis
    unfolding Let_def by (intro conjI e ex h2 full t1[unfolded n] a rm ch)
qed
section \<open>Invariants of a parsed dataset\<close>

text \<open>
  Claim C7 says that every row of a returned dataset maps each header to a trimmed string,
  the empty string standing for a field past the end of a short line. The script returns
  rows that do not. For the content \<open>a,__proto__ / 1,x\<close> the dataset has the headers \<open>a\<close>
  and \<open>__proto__\<close> and one row, which has no entry for \<open>__proto__\<close>: reading that header
  from the row gives the inherited member, not the string \<open>x\<close>. For the tab-separated
  content \<open>emptyCellOther\<close> the data line has an empty first cell and \<open>4\<close> in the second;
  it is not short, yet the row has \<open>4\<close> under the first header \<open>a\<close> and the empty string
  under \<open>b\<close>, because the line is trimmed before it is split. The earlier variant of the
  script gives the empty string under \<open>a\<close> and \<open>4\<close> under \<open>b\<close>.
\<close>

theorem header_without_value:
  "parseFile None ''a,__proto__\<newline>1,x'' ''x.csv''
     = Inr \<lparr>headers = [''a'', ''__proto__''], rows = [[(''a'', ''1'')]],
            delimiter = NameComma\<rparr>
   \<and> map trim (split_char CHR '','' ''1,x'') = [''1'', ''x'']
   \<and> map_of [(''a'', ''1'')] ''__proto__'' = None
   \<and> getProp [(''a'', ''1'')] ''__proto__'' = Inherited
   \<and> parseFile None emptyCellOther ''x.tsv''
       = Inr \<lparr>headers = [''a'', ''b''], rows = [[(''a'', ''4''), (''b'', [])]],
              delimiter = NameTab\<rparr>
   \<and> map trim (split_char TAB emptyCellLine) = [[], ''4'']
   \<and> parseFile_v0 None emptyCellOther ''x.tsv''
       = Inr \<lparr>headers = [''a'', ''b''], rows = [[(''a'', []), (''b'', ''4'')]],
          delimiter = NameTab\<rparr>"
  by code_simp

text \<open>
  What a returned dataset does satisfy: it has a header and a row; its rows are the rows of
  the surviving data lines, in the order of the lines; the columns of a row are the headers
  other than \<open>__proto__\<close>, each with a trimmed value, one of them non-empty; and the value
  of such a header is the trimmed field of the trimmed line at the last position of the
  header, the empty string when the trimmed line has no field there.
\<close>

lemma parsed_dataset_shape:
  assumes "parseFile sel content filename = Inr ds"
  shows
  "(let d = getDelimiter sel content filename;
        hs = headers ds;
        dataLines = tl (split_lines (trim content))
    in hs \<noteq> [] \<and> rows ds \<noteq> []
     \<and> rows ds = map (rowOfLine d hs) (filter (survives d hs) dataLines)
     \<and> (\<forall>row \<in> set (rows ds).
           fst ` set row = set hs - {''__proto__''}
           \<and> (\<forall>h \<in> set hs - {''__proto__''}. \<exists>v. map_of row h = Some v \<and> trim v = v)
           \<and> (\<exists>v \<in> snd ` set row. v \<noteq> []))
     \<and> (\<forall>l i. lastOccurrence hs i \<and> hs ! i \<noteq> ''__proto__'' \<longrightarrow>
           map_of (rowOfLine d hs l) (hs ! i)
             = Some (if i < length (split_char d (trim l))
                     then trim (split_char d (trim l) ! i) else []))
     \<and> (distinct hs \<longrightarrow> (\<forall>i < length hs. lastOccurrence hs i)))"
proof -
  define d where "d = getDelimiter sel content filename"
  define hs where "hs = headers ds"
  define dataLines where "dataLines = tl (split_lines (trim content))"
  note p = parseFile_Inr[OF assms, folded d_def hs_def dataLines_def]
  have "hs = map trim (split_char d (firstOf (split_lines (trim content))))"
    using p(1) by (simp add: hs_def)
  then have c1: "hs \<noteq> []" by (simp add: split_char_nonempty)
  have c2: "rows ds \<noteq> []" by (rule p(3))
  have c3: "rows ds = map (rowOfLine d hs) (filter (survives d hs) dataLines)" by (rule p(2))
  have c4: "\<forall>row \<in> set (rows ds).
           fst ` set row = set hs - {''__proto__''}
           \<and> (\<forall>h \<in> set hs - {''__proto__''}. \<exists>v. map_of row h = Some v \<and> trim v = v)
           \<and> (\<exists>v \<in> snd ` set row. v \<noteq> [])"
  proof
    fix row assume "row \<in> set (rows ds)"
    then obtain l where l: "row = rowOfLine d hs l" "survives d hs l"
      unfolding c3 by auto
    have "\<exists>v \<in> snd ` set row. v \<noteq> []"
      using l by (simp add: survives_def someNonEmpty_def)
    moreover have "fst ` set row = set hs - {''__proto__''}"
      unfolding l(1) by (rule rowOfLine_props(2))
    moreover have "\<forall>h \<in> set hs - {''__proto__''}. \<exists>v. map_of row h = Some v \<and> trim v = v"
    proof
      fix h assume "h \<in> set hs - {''__proto__''}"
      then have "h \<in> set hs" and "h \<noteq> ''__proto__''" by auto
      then show "\<exists>v. map_of row h = Some v \<and> trim v = v"
        unfolding l(1) by (rule row_has_header)
    qed
    ultimately show "fst ` set row = set hs - {''__proto__''}
           \<and> (\<forall>h \<in> set hs - {''__proto__''}. \<exists>v. map_of row h = Some v \<and> trim v = v)
           \<and> (\<exists>v \<in> snd ` set row. v \<noteq> [])"
      by blast
  qed
  have c5: "\<forall>l i. lastOccurrence hs i \<and> hs ! i \<noteq> ''__proto__'' \<longrightarrow>
           map_of (rowOfLine d hs l) (hs ! i)
             = Some (if i < length (split_char d (trim l))
                     then trim (split_char d (trim l) ! i) else [])"
  proof (intro allI impI)
    fix l i assume a: "lastOccurrence hs i \<and> hs ! i \<noteq> ''__proto__''"
    have "map_of (buildRow hs (split_char d (trim l))) (hs ! i)
            = Some (trim (fieldAt (split_char d (trim l)) i))"
      using a by (intro map_of_buildRow_last) simp_all
    then show "map_of (rowOfLine d hs l) (hs ! i)
             = Some (if i < length (split_char d (trim l))
                     then trim (split_char d (trim l) ! i) else [])"
      unfolding rowOfLine_def by (simp add: fieldAt_def)
  qed
  have c6: "distinct hs \<longrightarrow> (\<forall>i < length hs. lastOccurrence hs i)"
    using lastOccurrence_distinct by blast
  show ?thesis
    unfolding Let_def d_def[symmetric] hs_def[symmetric] dataLines_def[symmetric]
    by (intro conjI c1 c2 c3 c4 c5 c6)
qed
section \<open>Statistics\<close>

text \<open>
  Claim C8. In every result that \<open>performComparison\<close> returns, \<open>total1\<close> and \<open>total2\<close> are
  the numbers of rows of the two datasets as given, whatever keys the rows have, and the
  four other counts are the lengths of the four result lists.
\<close>

theorem stats_counts:
  assumes "performComparison file1 file2 keyColumn = Inr r"
  shows "total1 (stats r) = length (rows file1)
     \<and> total2 (stats r) = length (rows file2)
     \<and> addedCount (stats r) = length (added r)
     \<and> removedCount (stats r) = length (removed r)
     \<and> changedCount (stats r) = length (changed r)
     \<and> unchangedCount (stats r) = length (unchanged r)"
  unfolding performComparison_Inr(1)[OF assms]
  by (simp add: comparisonOf_def Let_def split: prod.splits)

text \<open>A dataset of two rows, one with an empty key: both rows are counted, one is indexed.\<close>

theorem stats_counts_witness:
  "(let f = \<lparr>headers = [''id'', ''v''],
              rows = [[(''id'', ''1''), (''v'', ''a'')], [(''id'', []), (''v'', ''b'')]],
              delimiter = NameComma\<rparr>;
        r = \<lparr>added = [], removed = [], changed = [],
              unchanged = [Unchanged ''1'' [(''id'', ''1''), (''v'', ''a'')]],
              stats = \<lparr>total1 = 2, total2 = 2, addedCount = 0, removedCount = 0,
                        changedCount = 0, unchangedCount = 1\<rparr>\<rparr>
    in performComparison f f ''id'' = Inr r
     \<and> total1 (stats r) = length (rows f) \<and> total2 (stats r) = length (rows f)
     \<and> length (rows f) = 2
     \<and> buildIndex ''id'' (rows f) [] = Inr [(''1'', [(''id'', ''1''), (''v'', ''a'')])]
     \<and> unchangedCount (stats r) = length (unchanged r) \<and> length (unchanged r) = 1)"
proof -
  let ?f = "\<lparr>headers = [''id'', ''v''],
              rows = [[(''id'', ''1''), (''v'', ''a'')], [(''id'', []), (''v'', ''b'')]],
              delimiter = NameComma\<rparr>"
  let ?r = "\<lparr>added = [], removed = [], changed = [],
              unchanged = [Unchanged ''1'' [(''id'', ''1''), (''v'', ''a'')]],
              stats = \<lparr>total1 = 2, total2 = 2, addedCount = 0, removedCount = 0,
                        changedCount = 0, unchangedCount = 1\<rparr>\<rparr>"
  have e: "performComparison ?f ?f ''id'' = Inr ?r" by code_simp
  note t = stats_counts[OF e]
  have b: "buildIndex ''id'' (rows ?f) [] = Inr [(''1'', [(''id'', ''1''), (''v'', ''a'')])]"
    by code_simp
  have n: "length (rows ?f) = 2" by simp
  have u: "length (unchanged ?r) = 1" by simp
  show ?thesis
    unfolding Let_def
    by (intro conjI e t[THEN conjunct1] t[THEN conjunct2, THEN conjunct1] n b
          t[THEN conjunct2, THEN conjunct2, THEN conjunct2, THEN conjunct2, THEN conjunct2] u)
qed
section \<open>Line breaks of both forms\<close>

text \<open>
  Claim C9. For every content, file name and delimiter selection, parsing the content with
  every line feed written as carriage return and line feed gives the same result as parsing
  the content itself: the same headers, rows and delimiter name, or the same error.
\<close>

theorem crlf_equivalence:
  "parseFile sel (crlf content) filename = parseFile sel content filename"
proof -
  define t where "t = trim content"
  define d where "d = getDelimiter sel content filename"
  define hs where "hs = map trim (split_char d (firstOf (split_lines t)))"
  have tr: "trim (crlf content) = crlf t" unfolding t_def by (rule trim_crlf)
  have L: "list_all2 alike (split_lines t) (split_lines (crlf t))" by (rule split_lines_crlf)
  have len: "length (split_lines (crlf t)) = length (split_lines t)"
    using L by (simp add: list_all2_lengthD)
  have F: "alike (firstOf (split_lines content)) (firstOf (split_lines (crlf content)))"
    by (intro firstOf_alike split_lines_crlf)
  have dd: "getDelimiter sel (crlf content) filename = d"
    unfolding d_def by (rule getDelimiter_first_line[OF F])
  have "d \<noteq> CR" unfolding d_def by (rule getDelimiter_not_CR)
  then have h: "map trim (split_char d (firstOf (split_lines (crlf t)))) = hs"
    unfolding hs_def by (intro headers_alike firstOf_alike L)
  have p: "parseLines d hs (tl (split_lines (crlf t))) = parseLines d hs (tl (split_lines t))"
    by (intro parseLines_alike tl_alike L)
  have e: "crlf t = [] \<longleftrightarrow> t = []" by (rule crlf_Nil_iff)
  have "parseFile sel (crlf content) filename =
     (if t = [] then Inl EmptyFile
      else if length (split_lines t) < 2 then Inl HeaderAndDataRequired
      else if [] \<in> set hs then Inl EmptyHeader
      else if parseLines d hs (tl (split_lines t)) = [] then Inl NoDataRows
      else Inr \<lparr>headers = hs, rows = parseLines d hs (tl (split_lines t)),
                delimiter = getDelimiterName d\<rparr>)"
    unfolding parseFile_unfold[of sel "crlf content" filename] tr dd len h p e ..
  also have "\<dots> = parseFile sel content filename"
    unfolding parseFile_unfold[of sel content filename] t_def[symmetric] d_def[symmetric]
      hs_def[symmetric] ..
  finally show ?thesis .
qed

text \<open>A file of two lines, with a line feed and with carriage return and line feed.\<close>

theorem crlf_equivalence_witness:
  "crlf ''a,b\<newline>1,2'' = ''a,b'' @ [CR, LF] @ ''1,2''
   \<and> parseFile None (''a,b'' @ [CR, LF] @ ''1,2'') ''x.txt''
       = Inr \<lparr>headers = [''a'', ''b''], rows = [[(''a'', ''1''), (''b'', ''2'')]],
               delimiter = NameComma\<rparr>
   \<and> parseFile None ''a,b\<newline>1,2'' ''x.txt''
       = Inr \<lparr>headers = [''a'', ''b''], rows = [[(''a'', ''1''), (''b'', ''2'')]],
               delimiter = NameComma\<rparr>"
proof -
  have c: "crlf ''a,b\<newline>1,2'' = ''a,b'' @ [CR, LF] @ ''1,2''" by code_simp
  have p: "parseFile None ''a,b\<newline>1,2'' ''x.txt''
       = Inr \<lparr>headers = [''a'', ''b''], rows = [[(''a'', ''1''), (''b'', ''2'')]],
               delimiter = NameComma\<rparr>"
    by code_simp
  have "parseFile None (''a,b'' @ [CR, LF] @ ''1,2'') ''x.txt''
          = parseFile None ''a,b\<newline>1,2'' ''x.txt''"
    using crlf_equivalence[of None "''a,b\<newline>1,2''" "''x.txt''"] unfolding c .
  with c p show ?thesis by simp
qed

section \<open>Repeated header names\<close>

text \<open>
  Claim C10 says that a header name that occurs more than once has a single entry in every
  row, holding the trimmed field at the last position of the name in the line. The script
  does so for the comma-separated content \<open>a,a,b /  1 , 2 ,3\<close>, where \<open>a\<close> gets the trimmed
  second field. It does not for the tab-separated content \<open>emptyCellSame2\<close>: the fields of
  the data line are the empty string, \<open>4\<close> and \<open>5\<close>, the last position of \<open>a\<close> is the
  second, and the row holds \<open>5\<close>, because the script trims the line before it splits it and
  the leading tab goes with the trim. The earlier variant of the script holds \<open>4\<close>. With
  \<open>4\<close> alone after the tab (\<open>emptyCellSame\<close>) the row is taken for empty and no dataset is
  returned. And for the repeated header name \<open>__proto__\<close> the row has no entry at all.
\<close>

theorem last_position_shifted:
  "parseFile None emptyCellSame2 ''x.tsv''
     = Inr \<lparr>headers = [''a'', ''a''], rows = [[(''a'', ''5'')]], delimiter = NameTab\<rparr>
   \<and> map trim (split_char TAB emptyCellLine2) = [[], ''4'', ''5'']
   \<and> split_char TAB (trim emptyCellLine2) = [''4'', ''5'']
   \<and> parseFile_v0 None emptyCellSame2 ''x.tsv''
       = Inr \<lparr>headers = [''a'', ''a''], rows = [[(''a'', ''4'')]], delimiter = NameTab\<rparr>
   \<and> parseFile None emptyCellSame ''x.tsv'' = Inl NoDataRows
   \<and> parseFile None ''__proto__,__proto__,a\<newline>1,2,3'' ''x.csv''
       = Inr \<lparr>headers = [''__proto__'', ''__proto__'', ''a''], rows = [[(''a'', ''3'')]],
              delimiter = NameComma\<rparr>
   \<and> parseFile None ''a,a,b\<newline> 1 , 2 ,3'' ''x.csv''
       = Inr \<lparr>headers = [''a'', ''a'', ''b''], rows = [[(''a'', ''2''), (''b'', ''3'')]],
              delimiter = NameComma\<rparr>"
  by code_simp

text \<open>
  What the script does with repeated names, on the fields it is given: a row has each header
  name other than \<open>__proto__\<close> once, with the trimmed field at the last position of the
  name; whether the row has a non-empty value, and the row itself, depend on the fields at
  these last positions alone. The rows of a parsed dataset are built this way from the
  fields of the trimmed lines, and the comparison reads nothing of a dataset but its rows.
\<close>

lemma row_collapse:
  "(let row = buildRow hs values;
        names = set hs - {''__proto__''}
    in distinct (map fst row) \<and> fst ` set row = names
     \<and> length row = card names \<and> length row \<le> length hs
     \<and> (''__proto__'' \<notin> set hs \<longrightarrow> (length row < length hs \<longleftrightarrow> \<not> distinct hs))
     \<and> (\<forall>i. lastOccurrence hs i \<and> hs ! i \<noteq> ''__proto__'' \<longrightarrow>
            map_of row (hs ! i) = Some (trim (fieldAt values i)))
     \<and> (\<forall>h \<in> set hs. \<exists>i. lastOccurrence hs i \<and> hs ! i = h)
     \<and> (someNonEmpty row \<longleftrightarrow>
          (\<exists>i. lastOccurrence hs i \<and> hs ! i \<noteq> ''__proto__'' \<and> trim (fieldAt values i) \<noteq> []))
     \<and> (\<forall>values'. (\<forall>i. lastOccurrence hs i \<longrightarrow>
                        trim (fieldAt values' i) = trim (fieldAt values i))
            \<longrightarrow> buildRow hs values' = row))
   \<and> (parseFile sel content filename = Inr ds \<longrightarrow>
        rows ds = map (\<lambda>l. buildRow (headers ds)
                            (split_char (getDelimiter sel content filename) (trim l)))
                    (filter (survives (getDelimiter sel content filename) (headers ds))
                       (tl (split_lines (trim content)))))
   \<and> (rows f1 = rows f1' \<and> rows f2 = rows f2' \<longrightarrow>
        performComparison f1 f2 keyColumn = performComparison f1' f2' keyColumn)"
proof -
  define row where "row = buildRow hs values"
  define names where "names = set hs - {''__proto__''}"
  have c1: "distinct (map fst row)" unfolding row_def by (rule distinct_buildRow)
  have c2: "fst ` set row = names" unfolding row_def names_def by (rule set_keys_buildRow)
  have c3: "length row = card names" unfolding row_def names_def by (rule length_buildRow)
  have "card names \<le> card (set hs)" unfolding names_def by (simp add: card_mono)
  also have "\<dots> \<le> length hs" by (rule card_length)
  finally have c4: "length row \<le> length hs" unfolding c3 .
  have c5: "''__proto__'' \<notin> set hs \<longrightarrow> (length row < length hs \<longleftrightarrow> \<not> distinct hs)"
  proof
    assume "''__proto__'' \<notin> set hs"
    then have "names = set hs" unfolding names_def by simp
    then show "length row < length hs \<longleftrightarrow> \<not> distinct hs"
      unfolding c3 using card_length[of hs] card_distinct[of hs] distinct_card[of hs]
      by (metis le_neq_implies_less less_irrefl_nat)
  qed
  have c6: "\<forall>i. lastOccurrence hs i \<and> hs ! i \<noteq> ''__proto__'' \<longrightarrow>
              map_of row (hs ! i) = Some (trim (fieldAt values i))"
    unfolding row_def using map_of_buildRow_last by blast
  have c7: "\<forall>h \<in> set hs. \<exists>i. lastOccurrence hs i \<and> hs ! i = h"
    using header_has_last by blast
  have c8: "someNonEmpty row \<longleftrightarrow>
          (\<exists>i. lastOccurrence hs i \<and> hs ! i \<noteq> ''__proto__'' \<and> trim (fieldAt values i) \<noteq> [])"
    unfolding row_def by (rule someNonEmpty_buildRow)
  have c9: "\<forall>values'. (\<forall>i. lastOccurrence hs i \<longrightarrow>
                        trim (fieldAt values' i) = trim (fieldAt values i))
            \<longrightarrow> buildRow hs values' = row"
    unfolding row_def using buildRow_cong by blast
  have c10: "parseFile sel content filename = Inr ds \<longrightarrow>
        rows ds = map (\<lambda>l. buildRow (headers ds)
                            (split_char (getDelimiter sel content filename) (trim l)))
                    (filter (survives (getDelimiter sel content filename) (headers ds))
                       (tl (split_lines (trim content))))"
    using parseFile_Inr(2)[of sel content filename ds] unfolding rowOfLine_def by blast
  have c11: "rows f1 = rows f1' \<and> rows f2 = rows f2' \<longrightarrow>
        performComparison f1 f2 keyColumn = performComparison f1' f2' keyColumn"
  proof
    assume "rows f1 = rows f1' \<and> rows f2 = rows f2'"
    then have a: "rows f1 = rows f1'" and b: "rows f2 = rows f2'" by simp_all
    show "performComparison f1 f2 keyColumn = performComparison f1' f2' keyColumn"
      unfolding performComparison_def a b ..
  qed
  show ?thesis
    unfolding Let_def row_def[symmetric] names_def[symmetric]
    by (intro conjI c1 c2 c3 c4 c5 c6 c7 c8 c9 c10 c11)
qed
end
